theory Spec2Isabelle
  imports Main "HOL-Library.Word"
begin

unbundle bit_operations_syntax

section \<open>Data model of the scheduler in pg\_ivm.c\<close>

text \<open>
  The file \<^verbatim>\<open>pg_ivm.c\<close> holds the executor and utility hooks of the extension. The
  hooks work on three kinds of state: the static variables of the backend
  (\<^verbatim>\<open>nesting_level\<close>, \<^verbatim>\<open>full_process\<close>, \<^verbatim>\<open>isUtility\<close>), the shared segment
  (\<^verbatim>\<open>schedule_state\<close> and \<^verbatim>\<open>queryHashTable\<close>), and the lock table of the host's lock
  manager.

  Relation identifiers (\<^verbatim>\<open>Oid\<close>, an unsigned 32-bit integer in C) are natural numbers; no
  arithmetic is done on them. The only place where their width matters is the cast to
  \<^verbatim>\<open>int\<close> in \<^verbatim>\<open>bms_add_member\<close>, which is written out below. The counters
  \<^verbatim>\<open>nesting_level\<close>, \<^verbatim>\<open>full_process\<close> and \<^verbatim>\<open>runningQuery\<close> are C \<^verbatim>\<open>int\<close>s that
  move by one per call; they are modelled as unbounded integers.
\<close>

type_synonym Oid = nat

definition InvalidOid :: Oid where
  "InvalidOid = 0"

text \<open>An error raised with \<^verbatim>\<open>ereport(ERROR, ...)\<close> or \<^verbatim>\<open>elog(ERROR, ...)\<close>.\<close>

datatype error = ERROR string

text \<open>
  Modelled from the spec: the declaration of the status enumeration, which is in a
  header that is not among the sources. Section 3 of the specification lists Waiting,
  Available, Running and GaveUp; \<^verbatim>\<open>pg_ivm.c\<close> names \<^verbatim>\<open>QUERY_AVAILABLE\<close> and
  \<^verbatim>\<open>QUERY_GIVE_UP\<close> and assigns only the latter.
\<close>

datatype QueryStatus = QUERY_WAITING | QUERY_AVAILABLE | QUERY_RUNNING | QUERY_GIVE_UP

text \<open>
  \<^verbatim>\<open>QueryTableEntry\<close>: the fields that \<^verbatim>\<open>pg_ivm.c\<close> reads and writes. The array
  \<^verbatim>\<open>affected_tables\<close> is a list; the loop over it stops at \<^verbatim>\<open>MAX_AFFECTED_TABLE\<close> or
  at the first zero.
\<close>

record QueryTableEntry =
  status :: QueryStatus
  affected_tables :: "Oid list"
  xid :: nat

type_synonym QueryKey = nat

text \<open>
  The shared segment: \<^verbatim>\<open>schedule_state->runningQuery\<close> and the hash table. A pointer to
  an entry (\<^verbatim>\<open>query_entry\<close>) is the key of its slot; \<open>entries\<close> is the memory of the
  slots, which a pointer can read and write whether or not the slot is still linked in
  the table, and \<open>registered\<close> lists the keys that are in the table, oldest first.
\<close>

record Shared =
  runningQuery :: int
  entries :: "QueryKey \<Rightarrow> QueryTableEntry"
  registered :: "QueryKey list"

type_synonym PlannedStmt = nat

record QueryDesc =
  sourceText :: string
  plannedstmt :: PlannedStmt

text \<open>\<^verbatim>\<open>RefedImmv\<close>: the base tables one materialized view refers to.\<close>

record RefedImmv =
  refed_table :: "Oid list"
  refed_table_num :: nat

text \<open>
  A lock tag of a relation, as \<^verbatim>\<open>SET_LOCKTAG_RELATION\<close> fills it: database and relation.
  The lock table of the backend gives, for each tag, how many times this backend holds
  the lock in \<^verbatim>\<open>ExclusiveLock\<close> mode.
\<close>

type_synonym LOCKTAG = "Oid \<times> Oid"

type_synonym LockTable = "LOCKTAG \<Rightarrow> nat"

text \<open>What the host (PostgreSQL) provides to the backend.\<close>

record Host =
  MyDatabaseId :: Oid
  IsSharedRelation :: "Oid \<Rightarrow> bool"
  IsParallelWorker :: bool

text \<open>
  The functions and constants of the extension that \<^verbatim>\<open>pg_ivm.c\<close> calls and that are
  defined in other files of the repository. The hooks below take them as parameters.
  \<^verbatim>\<open>LogQuery\<close> returns the pointer to the new entry, or raises.
\<close>

record Sched =
  MAX_AFFECTED_TABLE :: nat
  MAX_CONCURRENT_QUERY :: int
  LogQuery :: "Shared \<Rightarrow> PlannedStmt \<Rightarrow> string \<Rightarrow> error + (QueryKey \<times> Shared)"
  Reschedule :: "Shared \<Rightarrow> Shared"
  RemoveLoggedQuery :: "QueryDesc \<Rightarrow> Shared \<Rightarrow> Shared"
  getRefrenceImmv :: "Oid \<Rightarrow> RefedImmv option"

text \<open>The state one backend works on.\<close>

record World =
  nesting_level :: int
  full_process :: int
  isUtility :: bool
  shm :: Shared
  locks :: LockTable

section \<open>The host's lock manager and bitmap sets\<close>

text \<open>
  \<^verbatim>\<open>SetLocktagRelationOid\<close> (lines 113-124): a shared relation is locked under database
  \<^verbatim>\<open>InvalidOid\<close>, any other under \<^verbatim>\<open>MyDatabaseId\<close>. The lock manager's
  \<^verbatim>\<open>ConditionalLockRelationOid\<close> and \<^verbatim>\<open>UnlockRelationOid\<close> build their tag the same way.
\<close>

definition SetLocktagRelationOid :: "Host \<Rightarrow> Oid \<Rightarrow> LOCKTAG" where
  "SetLocktagRelationOid h relid =
     (let dbid = (if IsSharedRelation h relid then InvalidOid else MyDatabaseId h)
      in (dbid, relid))"

definition LockHeldByMe :: "LockTable \<Rightarrow> LOCKTAG \<Rightarrow> bool" where
  "LockHeldByMe L tag = (0 < L tag)"

text \<open>
  \<^verbatim>\<open>ConditionalLockRelationOid(relid, ExclusiveLock)\<close> never waits. \<open>busy tag\<close> says that
  another session holds a conflicting lock at the time of the attempt. A lock this
  backend holds already is granted again and counted once more.
\<close>

definition ConditionalLockRelationOid ::
  "Host \<Rightarrow> (LOCKTAG \<Rightarrow> bool) \<Rightarrow> LockTable \<Rightarrow> Oid \<Rightarrow> LockTable option" where
  "ConditionalLockRelationOid h busy L relid =
     (let tag = SetLocktagRelationOid h relid
      in if 0 < L tag \<or> \<not> busy tag then Some (L(tag := L tag + 1)) else None)"

definition UnlockRelationOid :: "Host \<Rightarrow> LockTable \<Rightarrow> Oid \<Rightarrow> LockTable" where
  "UnlockRelationOid h L relid =
     (let tag = SetLocktagRelationOid h relid in L(tag := L tag - 1))"

text \<open>
  A \<^verbatim>\<open>Bitmapset\<close> is the ascending list of its members. \<^verbatim>\<open>bms_add_member\<close> takes an
  \<^verbatim>\<open>int\<close>: an \<^verbatim>\<open>Oid\<close> of \<open>2^31\<close> or more is negative after the cast, and the host raises.
  \<^verbatim>\<open>bms_next_member\<close> walks the members in ascending order.
\<close>

type_synonym Bitmapset = "nat list"

definition bms_add_member :: "Bitmapset \<Rightarrow> Oid \<Rightarrow> error + Bitmapset" where
  "bms_add_member a x =
     (if 2 ^ 31 \<le> x then Inl (ERROR ''negative bitmapset member not allowed'')
      else Inr (if x \<in> set a then a else insort x a))"

section \<open>The lock acquisition pass of pg\_hook\_execution\_start\<close>

text \<open>
  The loop of lines 679-682: every member of \<^verbatim>\<open>newlyLocked\<close> is unlocked, in ascending
  order.
\<close>

fun unlock_newlyLocked :: "Host \<Rightarrow> Bitmapset \<Rightarrow> LockTable \<Rightarrow> LockTable" where
  "unlock_newlyLocked h [] L = L"
| "unlock_newlyLocked h (iter # rest) L = unlock_newlyLocked h rest (UnlockRelationOid h L iter)"

text \<open>
  How a pass over the tables stands: still going, with the lock table and
  \<^verbatim>\<open>newlyLocked\<close>; retreated after a failed attempt (the \<^verbatim>\<open>else\<close> branch of lines
  676-692, up to \<^verbatim>\<open>bms_free\<close>); or left by an error.
\<close>

datatype pass = Continue LockTable Bitmapset | Retreat LockTable | Failed error LockTable

text \<open>The inner loop (lines 664-693) over the base tables of one view.\<close>

fun lock_refed_tables ::
  "Host \<Rightarrow> (LOCKTAG \<Rightarrow> bool) \<Rightarrow> Oid list \<Rightarrow> LockTable \<Rightarrow> Bitmapset \<Rightarrow> pass" where
  "lock_refed_tables h busy [] L newlyLocked = Continue L newlyLocked"
| "lock_refed_tables h busy (r # rs) L newlyLocked =
     (if LockHeldByMe L (SetLocktagRelationOid h r)
      then lock_refed_tables h busy rs L newlyLocked
      else (case ConditionalLockRelationOid h busy L r of
              Some L' \<Rightarrow>
                (case bms_add_member newlyLocked r of
                   Inr newlyLocked' \<Rightarrow> lock_refed_tables h busy rs L' newlyLocked'
                 | Inl e \<Rightarrow> Failed e L')
            | None \<Rightarrow> Retreat (unlock_newlyLocked h newlyLocked L)))"

text \<open>The outer loop (lines 657-694) over the affected views of the query.\<close>

fun lock_affected_tables ::
  "Host \<Rightarrow> Sched \<Rightarrow> (LOCKTAG \<Rightarrow> bool) \<Rightarrow> Oid list \<Rightarrow> LockTable \<Rightarrow> Bitmapset \<Rightarrow> pass" where
  "lock_affected_tables h c busy [] L newlyLocked = Continue L newlyLocked"
| "lock_affected_tables h c busy (a # as) L newlyLocked =
     (case getRefrenceImmv c a of
        None \<Rightarrow> lock_affected_tables h c busy as L newlyLocked
      | Some refed_immv \<Rightarrow>
          (case lock_refed_tables h busy
                  (take (refed_table_num refed_immv) (refed_table refed_immv)) L newlyLocked of
             Continue L' newlyLocked' \<Rightarrow> lock_affected_tables h c busy as L' newlyLocked'
           | Retreat L' \<Rightarrow> Retreat L'
           | Failed e L' \<Rightarrow> Failed e L'))"

text \<open>
  The views the outer loop visits:
  \<^verbatim>\<open>i < MAX_AFFECTED_TABLE && query_entry->affected_tables[i] != 0\<close>.
\<close>

definition visited_tables :: "Sched \<Rightarrow> QueryTableEntry \<Rightarrow> Oid list" where
  "visited_tables c e = takeWhile (\<lambda>t. t \<noteq> 0) (take (MAX_AFFECTED_TABLE c) (affected_tables e))"

text \<open>One pass, from \<^verbatim>\<open>newlyLocked = NULL\<close> (line 655) to the end of the loops.\<close>

definition lock_pass ::
  "Host \<Rightarrow> Sched \<Rightarrow> (LOCKTAG \<Rightarrow> bool) \<Rightarrow> QueryTableEntry \<Rightarrow> LockTable \<Rightarrow> pass" where
  "lock_pass h c busy e L = lock_affected_tables h c busy (visited_tables c e) L []"

section \<open>The wait loop and the hook on ExecutorStart\<close>

text \<open>
  \<^verbatim>\<open>enable_enforce(level)\<close> (line 46), and the guard of lines 610-613. The two flag
  constants are the host's (\<^verbatim>\<open>executor.h\<close>).
\<close>

definition EXEC_FLAG_EXPLAIN_ONLY :: "32 word" where
  "EXEC_FLAG_EXPLAIN_ONLY = 0x0001"

definition EXEC_FLAG_EXPLAIN_GENERIC :: "32 word" where
  "EXEC_FLAG_EXPLAIN_GENERIC = 0x0002"

definition enable_enforce :: "Host \<Rightarrow> World \<Rightarrow> int \<Rightarrow> bool" where
  "enable_enforce h w level = (\<not> IsParallelWorker h \<and> level = 0 \<and> \<not> isUtility w)"

definition skips_enforcement :: "Host \<Rightarrow> QueryDesc \<Rightarrow> 32 word \<Rightarrow> World \<Rightarrow> bool" where
  "skips_enforcement h queryDesc eflags w =
     (sourceText queryDesc = '''' \<or>
      eflags AND (EXEC_FLAG_EXPLAIN_GENERIC OR EXEC_FLAG_EXPLAIN_ONLY) \<noteq> 0 \<or>
      \<not> enable_enforce h w (nesting_level w))"

text \<open>
  The critical sections of the hook, each run under \<^verbatim>\<open>schedule_state->lock\<close>.
  Lines 617-627: registration and the first reschedule.
\<close>

definition register_query :: "Sched \<Rightarrow> QueryDesc \<Rightarrow> Shared \<Rightarrow> error + (QueryKey \<times> Shared)" where
  "register_query c queryDesc s =
     (case LogQuery c s (plannedstmt queryDesc) (sourceText queryDesc) of
        Inl e \<Rightarrow> Inl e
      | Inr (query_entry, s') \<Rightarrow> Inr (query_entry, Reschedule c s'))"

text \<open>Lines 686-690: the record is marked, the counter goes down by one, reschedule.\<close>

definition set_status :: "QueryKey \<Rightarrow> QueryStatus \<Rightarrow> Shared \<Rightarrow> Shared" where
  "set_status query_entry st s =
     s\<lparr>entries := (entries s)(query_entry := (entries s query_entry)\<lparr>status := st\<rparr>)\<rparr>"

definition give_up :: "Sched \<Rightarrow> QueryKey \<Rightarrow> Shared \<Rightarrow> Shared" where
  "give_up c query_entry s =
     Reschedule c
       ((set_status query_entry QUERY_GIVE_UP s)\<lparr>runningQuery := runningQuery s - 1\<rparr>)"

text \<open>
  The other sessions act between the critical sections of this one and decide which
  lock attempts fail. One round of the wait loop meets them at three places: before the
  read of lines 633-636, before the forced reschedule of lines 643-646, and, when a lock
  pass follows, during the pass (which tables are busy) and before the critical section
  of lines 686-690. Within one pass a table is tried at most once, so one answer per
  table is all a pass can see.
\<close>

record Round =
  before_read :: "Shared \<Rightarrow> Shared"
  before_heal :: "Shared \<Rightarrow> Shared"
  busy :: "LOCKTAG \<Rightarrow> bool"
  before_give_up :: "Shared \<Rightarrow> Shared"

text \<open>
  One iteration of the loop of lines 630-653: the status after the iteration, and the
  shared segment.
\<close>

definition poll :: "Sched \<Rightarrow> QueryKey \<Rightarrow> Round \<Rightarrow> Shared \<Rightarrow> QueryStatus \<times> Shared" where
  "poll c query_entry r s =
     (let s1 = before_read r s;
          st = status (entries s1 query_entry);
          running = runningQuery s1;
          s2 = before_heal r s1
      in if running = 0 \<and> st \<noteq> QUERY_AVAILABLE
         then (let s3 = Reschedule c s2 in (status (entries s3 query_entry), s3))
         else (st, s2))"

text \<open>
  How a call of a hook ends: it returns, it raises (and the error goes on to the
  caller), or it is still in the wait loop when the rounds given to it are used up.
\<close>

datatype outcome = Returned World | Raised error World | Polling World

text \<open>
  The label \<^verbatim>\<open>waiting\<close> (line 629) and everything after it. Each round is one iteration
  of the wait loop; when the status is \<^verbatim>\<open>QUERY_AVAILABLE\<close> the loop is left and a lock
  pass follows, which either gets every lock (the hook returns), retreats
  (\<^verbatim>\<open>goto waiting\<close>) or raises.
\<close>

fun waiting :: "Host \<Rightarrow> Sched \<Rightarrow> QueryKey \<Rightarrow> Round list \<Rightarrow> World \<Rightarrow> outcome" where
  "waiting h c query_entry [] w = Polling w"
| "waiting h c query_entry (r # rs) w =
     (case poll c query_entry r (shm w) of
        (st, s) \<Rightarrow>
          if st = QUERY_AVAILABLE
          then (case lock_pass h c (busy r) (entries s query_entry) (locks w) of
                  Continue L newlyLocked \<Rightarrow> Returned (w\<lparr>shm := s, locks := L\<rparr>)
                | Retreat L \<Rightarrow>
                    waiting h c query_entry rs
                      (w\<lparr>shm := give_up c query_entry (before_give_up r s), locks := L\<rparr>)
                | Failed e L \<Rightarrow> Raised e (w\<lparr>shm := s, locks := L\<rparr>))
          else waiting h c query_entry rs (w\<lparr>shm := s\<rparr>))"

text \<open>
  \<^verbatim>\<open>pg_hook_execution_start\<close> (lines 595-701). \<open>std\<close> is what the previous hook or
  \<^verbatim>\<open>standard_ExecutorStart\<close> does: it returns or raises. It touches neither the static
  variables of this file nor the shared segment. The calls of \<^verbatim>\<open>getLocksHeldByMe\<close>
  (lines 683 and 696) and of \<^verbatim>\<open>elog\<close> only write a log message, and the \<^verbatim>\<open>Assert\<close>s
  of this file are compiled out of a production build; they change nothing and are left
  out here and below.
\<close>

definition pg_hook_execution_start ::
  "Host \<Rightarrow> Sched \<Rightarrow> QueryDesc \<Rightarrow> 32 word \<Rightarrow> error option \<Rightarrow> Round list \<Rightarrow> World \<Rightarrow> outcome" where
  "pg_hook_execution_start h c queryDesc eflags std rounds w =
     (case std of
        Some e \<Rightarrow> Raised e w
      | None \<Rightarrow>
          if skips_enforcement h queryDesc eflags w then Returned w
          else (let w1 = w\<lparr>full_process := full_process w + 1\<rparr>
                in case register_query c queryDesc (shm w1) of
                     Inl e \<Rightarrow> Raised e w1
                   | Inr (query_entry, s) \<Rightarrow> waiting h c query_entry rounds (w1\<lparr>shm := s\<rparr>)))"

section \<open>The hooks on ExecutorRun and ProcessUtility\<close>

text \<open>
  The condition of lines 718-719 and 737, read after \<^verbatim>\<open>nesting_level--\<close>. The C test
  \<^verbatim>\<open>&& full_process\<close> is a test for a value other than zero.
\<close>

definition cleanup_enabled :: "Host \<Rightarrow> QueryDesc \<Rightarrow> World \<Rightarrow> bool" where
  "cleanup_enabled h queryDesc w =
     (sourceText queryDesc \<noteq> '''' \<and> enable_enforce h w (nesting_level w) \<and> full_process w \<noteq> 0)"

text \<open>The critical section of the error path (lines 722-728).\<close>

definition cleanup_on_error :: "Sched \<Rightarrow> QueryDesc \<Rightarrow> Shared \<Rightarrow> Shared" where
  "cleanup_on_error c queryDesc s =
     Reschedule c (RemoveLoggedQuery c queryDesc (s\<lparr>runningQuery := runningQuery s - 1\<rparr>))"

text \<open>The critical section of the normal path (lines 740-748).\<close>

definition cleanup_on_return :: "Sched \<Rightarrow> QueryDesc \<Rightarrow> Shared \<Rightarrow> Shared" where
  "cleanup_on_return c queryDesc s =
     (let s1 = RemoveLoggedQuery c queryDesc s
      in Reschedule c (s1\<lparr>runningQuery := runningQuery s1 - 1\<rparr>))"

text \<open>
  \<^verbatim>\<open>pg_hook_executor_run\<close> (lines 703-750). \<open>std\<close> is what the previous hook or
  \<^verbatim>\<open>standard_ExecutorRun\<close> does from the world it is entered with; it may call the
  hooks again for nested statements. The hook does nothing with the lock table.
\<close>

definition pg_hook_executor_run ::
  "Host \<Rightarrow> Sched \<Rightarrow> QueryDesc \<Rightarrow> (World \<Rightarrow> outcome) \<Rightarrow> World \<Rightarrow> outcome" where
  "pg_hook_executor_run h c queryDesc std w =
     (case std (w\<lparr>nesting_level := nesting_level w + 1\<rparr>) of
        Raised e w1 \<Rightarrow>
          (let w2 = w1\<lparr>nesting_level := nesting_level w1 - 1\<rparr>
           in Raised e
                (if cleanup_enabled h queryDesc w2
                 then w2\<lparr>full_process := full_process w2 - 1,
                         shm := cleanup_on_error c queryDesc (shm w2)\<rparr>
                 else w2))
      | Returned w1 \<Rightarrow>
          (let w2 = w1\<lparr>nesting_level := nesting_level w1 - 1\<rparr>
           in Returned
                (if cleanup_enabled h queryDesc w2
                 then w2\<lparr>full_process := full_process w2 - 1,
                         shm := cleanup_on_return c queryDesc (shm w2)\<rparr>
                 else w2))
      | Polling w1 \<Rightarrow> Polling w1)"

text \<open>
  \<^verbatim>\<open>pg_hook_process_utility\<close> (lines 786-818): \<^verbatim>\<open>PG_FINALLY\<close> runs on both ways out
  and the error, if any, goes on.
\<close>

definition pg_hook_process_utility :: "(World \<Rightarrow> outcome) \<Rightarrow> World \<Rightarrow> outcome" where
  "pg_hook_process_utility std w =
     (case std (w\<lparr>isUtility := True\<rparr>) of
        Returned w1 \<Rightarrow> Returned (w1\<lparr>isUtility := False\<rparr>)
      | Raised e w1 \<Rightarrow> Raised e (w1\<lparr>isUtility := False\<rparr>)
      | Polling w1 \<Rightarrow> Polling w1)"

section \<open>What the host does with the hooks\<close>

text \<open>
  The host calls the hooks in a nested fashion: while \<^verbatim>\<open>standard_ExecutorRun\<close> or
  \<^verbatim>\<open>standard_ProcessUtility\<close> is at work, functions and sub-commands of the statement
  start and run further statements, each through the same hooks. A call is described by
  what the host does inside it: the nested calls in their order, and whether the
  standard function raises an error of its own after them. A nested call that raises
  ends the enclosing standard function with that error.
\<close>

datatype call =
    ExecutorStart QueryDesc "32 word" "error option" "Round list"
  | ExecutorRun QueryDesc "call list" "error option"
  | ProcessUtility "call list" "error option"

definition finish :: "error option \<Rightarrow> outcome \<Rightarrow> outcome" where
  "finish err r =
     (case r of
        Returned w \<Rightarrow> (case err of None \<Rightarrow> Returned w | Some e \<Rightarrow> Raised e w)
      | Raised e w \<Rightarrow> Raised e w
      | Polling w \<Rightarrow> Polling w)"

fun run_call :: "Host \<Rightarrow> Sched \<Rightarrow> call \<Rightarrow> World \<Rightarrow> outcome"
  and run_calls :: "Host \<Rightarrow> Sched \<Rightarrow> call list \<Rightarrow> World \<Rightarrow> outcome" where
  "run_call h c (ExecutorStart queryDesc eflags std rounds) w =
     pg_hook_execution_start h c queryDesc eflags std rounds w"
| "run_call h c (ExecutorRun queryDesc body err) w =
     pg_hook_executor_run h c queryDesc (\<lambda>w'. finish err (run_calls h c body w')) w"
| "run_call h c (ProcessUtility body err) w =
     pg_hook_process_utility (\<lambda>w'. finish err (run_calls h c body w')) w"
| "run_calls h c [] w = Returned w"
| "run_calls h c (x # xs) w =
     (case run_call h c x w of
        Returned w' \<Rightarrow> run_calls h c xs w'
      | Raised e w' \<Rightarrow> Raised e w'
      | Polling w' \<Rightarrow> Polling w')"

section \<open>Notions used in the statements\<close>

text \<open>
  The base tables a pass goes through, in the order of the two loops: for each visited
  view that has an entry in the dependency index, its first \<^verbatim>\<open>refed_table_num\<close> tables.
\<close>

definition refed_tables_of :: "Sched \<Rightarrow> Oid \<Rightarrow> Oid list" where
  "refed_tables_of c a =
     (case getRefrenceImmv c a of
        None \<Rightarrow> []
      | Some refed_immv \<Rightarrow> take (refed_table_num refed_immv) (refed_table refed_immv))"

definition needed_tables :: "Sched \<Rightarrow> QueryTableEntry \<Rightarrow> Oid list" where
  "needed_tables c e = concat (map (refed_tables_of c) (visited_tables c e))"

text \<open>The lock table \<open>L\<close> with one more lock on each relation of \<open>S\<close>.\<close>

definition with_locks :: "Host \<Rightarrow> LockTable \<Rightarrow> Oid set \<Rightarrow> LockTable" where
  "with_locks h L S = (\<lambda>tag. L tag + (if tag \<in> SetLocktagRelationOid h ` S then 1 else 0))"

text \<open>The lock table a pass leaves behind, however it ends.\<close>

fun pass_locks :: "pass \<Rightarrow> LockTable" where
  "pass_locks (Continue L newlyLocked) = L"
| "pass_locks (Retreat L) = L"
| "pass_locks (Failed e L) = L"

text \<open>
  The loop invariant of a pass that began with the lock table \<open>L0\<close>: the members of
  \<^verbatim>\<open>newlyLocked\<close> are exactly the locks added since, each once, and none of them was
  held at the beginning. \<open>pass_post\<close> is what follows from it for each way a loop ends.
\<close>

definition pass_inv :: "Host \<Rightarrow> LockTable \<Rightarrow> LockTable \<Rightarrow> Bitmapset \<Rightarrow> bool" where
  "pass_inv h L0 L newlyLocked \<longleftrightarrow>
     L = with_locks h L0 (set newlyLocked) \<and> distinct newlyLocked \<and>
     (\<forall>r\<in>set newlyLocked. L0 (SetLocktagRelationOid h r) = 0)"

definition pass_post :: "Host \<Rightarrow> LockTable \<Rightarrow> Bitmapset \<Rightarrow> pass \<Rightarrow> bool" where
  "pass_post h L0 newlyLocked p =
     (case p of
        Continue L' newlyLocked' \<Rightarrow> pass_inv h L0 L' newlyLocked' \<and> set newlyLocked \<subseteq> set newlyLocked'
      | Retreat L' \<Rightarrow> L' = L0
      | Failed e L' \<Rightarrow>
          (\<exists>S. L' = with_locks h L0 S \<and> (\<forall>r\<in>S. L0 (SetLocktagRelationOid h r) = 0)))"

text \<open>The world a call of a hook ends in, and whether the call is still polling.\<close>

fun world_of :: "outcome \<Rightarrow> World" where
  "world_of (Returned w) = w"
| "world_of (Raised e w) = w"
| "world_of (Polling w) = w"

fun still_polling :: "outcome \<Rightarrow> bool" where
  "still_polling (Polling w) = True"
| "still_polling (Returned w) = False"
| "still_polling (Raised e w) = False"

text \<open>A call in which no utility command is run, at any depth.\<close>

fun no_utility :: "call \<Rightarrow> bool" where
  "no_utility (ExecutorStart queryDesc eflags std rounds) = True"
| "no_utility (ExecutorRun queryDesc body err) = list_all no_utility body"
| "no_utility (ProcessUtility body err) = False"

section \<open>The registry and the admission algorithm, from the specification\<close>

text \<open>
  \<^verbatim>\<open>LogQuery\<close>, \<^verbatim>\<open>Reschedule\<close>, \<^verbatim>\<open>RemoveLoggedQuery\<close> and \<^verbatim>\<open>getRefrenceImmv\<close> are
  defined in files of the repository other than \<^verbatim>\<open>pg_ivm.c\<close>. What follows is what the
  specification says of them (sections 3, 4.1, 4.2 and 6).
\<close>

text \<open>
  Modelled from the spec: the configuration and the external collaborators of section 6
  (\<open>MaxConcurrentQueries\<close>, \<open>MaxAffectedTablesPerQuery\<close>, the capacity of the registry,
  the affected views and the transaction of a query, the dependency index).
\<close>

record Spec =
  MaxConcurrentQueries :: int
  MaxAffectedTablesPerQuery :: nat
  RegistryCapacity :: nat
  affectedImmvs :: "PlannedStmt \<Rightarrow> Oid list"
  transactionId :: "PlannedStmt \<Rightarrow> nat"
  dependenciesOf :: "Oid \<Rightarrow> Oid list option"

text \<open>
  Modelled from the spec: \<^verbatim>\<open>LogQuery\<close>, the \<open>register\<close> of section 4.1. It fails with
  \<open>CapacityExceeded\<close> if the registry is full or the query has more affected tables than
  the cap, and leaves the registry unchanged then; otherwise the record starts in
  \<open>Waiting\<close> and comes last in arrival order. The key of the record is the handle of the
  query's plan, which the host gives to one execution only.
\<close>

definition spec_register ::
  "Spec \<Rightarrow> Shared \<Rightarrow> PlannedStmt \<Rightarrow> string \<Rightarrow> error + (QueryKey \<times> Shared)" where
  "spec_register sp s p txt =
     (if RegistryCapacity sp \<le> length (registered s) \<or>
         MaxAffectedTablesPerQuery sp < length (affectedImmvs sp p)
      then Inl (ERROR ''CapacityExceeded'')
      else Inr (p, s\<lparr>entries := (entries s)
                        (p := \<lparr>status = QUERY_WAITING, affected_tables = affectedImmvs sp p,
                               xid = transactionId sp p\<rparr>),
                     registered := registered s @ [p]\<rparr>))"

text \<open>
  Modelled from the spec: \<^verbatim>\<open>RemoveLoggedQuery\<close>, the \<open>deregister\<close> of section 4.1. It
  removes the record and does nothing if the record is absent.
\<close>

definition spec_deregister :: "QueryDesc \<Rightarrow> Shared \<Rightarrow> Shared" where
  "spec_deregister queryDesc s = s\<lparr>registered := removeAll (plannedstmt queryDesc) (registered s)\<rparr>"

text \<open>
  Modelled from the spec: step 1 and step 2 of the admission algorithm of section 4.2.
  At the cap nothing changes; below it, \<open>Waiting\<close> records become \<open>Available\<close> in
  ascending arrival order, each taking one unit of the running count, until the cap is
  reached.
\<close>

fun admit :: "int \<Rightarrow> QueryKey list \<Rightarrow> Shared \<Rightarrow> Shared" where
  "admit cap [] s = s"
| "admit cap (k # ks) s =
     (if cap \<le> runningQuery s then s
      else if status (entries s k) = QUERY_WAITING
           then admit cap ks ((set_status k QUERY_AVAILABLE s)\<lparr>runningQuery := runningQuery s + 1\<rparr>)
           else admit cap ks s)"

text \<open>
  Modelled from the spec: the edge from \<open>GaveUp\<close> back to \<open>Waiting\<close> of section 4.2. A
  record that gave up is not admitted by the pass that finds it so; the pass clears it
  back to \<open>Waiting\<close>.
\<close>

fun clear_gave_up :: "QueryKey list \<Rightarrow> Shared \<Rightarrow> Shared" where
  "clear_gave_up [] s = s"
| "clear_gave_up (k # ks) s =
     clear_gave_up ks
       (if status (entries s k) = QUERY_GIVE_UP then set_status k QUERY_WAITING s else s)"

text \<open>Modelled from the spec: \<^verbatim>\<open>Reschedule\<close>, one pass of the algorithm of section 4.2.\<close>

definition spec_Reschedule :: "Spec \<Rightarrow> Shared \<Rightarrow> Shared" where
  "spec_Reschedule sp s =
     clear_gave_up (registered s) (admit (MaxConcurrentQueries sp) (registered s) s)"

text \<open>
  Modelled from the spec: \<^verbatim>\<open>getRefrenceImmv\<close>, the \<open>dependenciesOf\<close> of section 6.
\<close>

definition spec_getRefrenceImmv :: "Spec \<Rightarrow> Oid \<Rightarrow> RefedImmv option" where
  "spec_getRefrenceImmv sp a =
     (case dependenciesOf sp a of
        None \<Rightarrow> None
      | Some tables \<Rightarrow> Some \<lparr>refed_table = tables, refed_table_num = length tables\<rparr>)"

text \<open>
  Modelled from the spec: the scheduler as a whole, that is, the functions and constants
  that \<^verbatim>\<open>pg_ivm.c\<close> takes from the other files of the repository.
\<close>

definition spec_sched :: "Spec \<Rightarrow> Sched" where
  "spec_sched sp =
     \<lparr>MAX_AFFECTED_TABLE = MaxAffectedTablesPerQuery sp,
      MAX_CONCURRENT_QUERY = MaxConcurrentQueries sp,
      LogQuery = spec_register sp,
      Reschedule = spec_Reschedule sp,
      RemoveLoggedQuery = spec_deregister,
      getRefrenceImmv = spec_getRefrenceImmv sp\<rparr>"

section \<open>A small installation, for concrete runs\<close>

text \<open>
  One database, no shared relations, a backend that is not a parallel worker; at most
  two queries at a time; every query affects the view 100, which reads the base tables
  10 and 11.
\<close>

definition ex_host :: Host where
  "ex_host = \<lparr>MyDatabaseId = 5, IsSharedRelation = (\<lambda>r. False), IsParallelWorker = False\<rparr>"

definition ex_spec :: Spec where
  "ex_spec =
     \<lparr>MaxConcurrentQueries = 2, MaxAffectedTablesPerQuery = 4, RegistryCapacity = 8,
      affectedImmvs = (\<lambda>p. [100]), transactionId = (\<lambda>p. 7),
      dependenciesOf = (\<lambda>a. if a = 100 then Some [10, 11] else None)\<rparr>"

definition ex_sched :: Sched where
  "ex_sched = spec_sched ex_spec"

definition ex_empty :: Shared where
  "ex_empty =
     \<lparr>runningQuery = 0,
      entries = (\<lambda>k. \<lparr>status = QUERY_WAITING, affected_tables = [], xid = 0\<rparr>),
      registered = []\<rparr>"

definition ex_world :: World where
  "ex_world =
     \<lparr>nesting_level = 0, full_process = 0, isUtility = False, shm = ex_empty,
      locks = (\<lambda>tag. 0)\<rparr>"

definition ex_query :: QueryDesc where
  "ex_query = \<lparr>sourceText = ''SELECT 1'', plannedstmt = 1\<rparr>"

text \<open>A round in which the other sessions do nothing and no table is busy.\<close>

definition quiet :: Round where
  "quiet = \<lparr>before_read = (\<lambda>s. s), before_heal = (\<lambda>s. s), busy = (\<lambda>tag. False),
            before_give_up = (\<lambda>s. s)\<rparr>"

text \<open>A round in which another session holds the lock on table 11.\<close>

definition contended :: Round where
  "contended = quiet\<lparr>busy := (\<lambda>tag. tag = (5, 11))\<rparr>"

text \<open>The world after the query 1 has been registered and admitted.\<close>

definition ex_admitted :: World where
  "ex_admitted =
     ex_world\<lparr>full_process := 1,
              shm := \<lparr>runningQuery = 1,
                      entries = (entries ex_empty)
                        (1 := \<lparr>status = QUERY_AVAILABLE, affected_tables = [100], xid = 7\<rparr>),
                      registered = [1]\<rparr>\<rparr>"

text \<open>A lock table in which the session holds the lock on table 10.\<close>

definition ex_holding :: LockTable where
  "ex_holding = (\<lambda>tag. if tag = (5, 10) then 1 else 0)"

text \<open>The world after the query 1 has got its locks and the hook on ExecutorStart has returned.\<close>

definition ex_started :: World where
  "ex_started = ex_admitted\<lparr>locks := (\<lambda>tag. if tag = (5, 10) \<or> tag = (5, 11) then 1 else 0)\<rparr>"

text \<open>A second query of the same session.\<close>

definition ex_query2 :: QueryDesc where
  "ex_query2 = \<lparr>sourceText = ''SELECT 2'', plannedstmt = 2\<rparr>"

text \<open>
  A query that affects more views than the cap allows, so that its registration fails,
  and the installation with it.
\<close>

definition ex_big_query :: QueryDesc where
  "ex_big_query = \<lparr>sourceText = ''SELECT 3'', plannedstmt = 3\<rparr>"

definition ex_sched2 :: Sched where
  "ex_sched2 =
     spec_sched (ex_spec\<lparr>affectedImmvs := (\<lambda>p. if p = 3 then [100, 101, 102, 103, 104] else [100])\<rparr>)"

text \<open>
  The shared segment after the only query has retreated: it is back to waiting and
  nothing runs. And a world in which two queries of other sessions fill the cap while
  the query 1 waits.
\<close>

definition ex_retreated :: Shared where
  "ex_retreated =
     \<lparr>runningQuery = 0,
      entries = (entries ex_empty)
        (1 := \<lparr>status = QUERY_WAITING, affected_tables = [100], xid = 7\<rparr>),
      registered = [1]\<rparr>"

definition ex_queued :: World where
  "ex_queued =
     ex_world\<lparr>full_process := 1,
              shm := \<lparr>runningQuery = 2,
                      entries = (entries ex_empty)
                        (2 := \<lparr>status = QUERY_AVAILABLE, affected_tables = [100], xid = 8\<rparr>,
                         3 := \<lparr>status = QUERY_AVAILABLE, affected_tables = [100], xid = 9\<rparr>,
                         1 := \<lparr>status = QUERY_WAITING, affected_tables = [100], xid = 7\<rparr>),
                      registered = [2, 3, 1]\<rparr>\<rparr>"

text \<open>
  The installation with a second view, 200, which reads the base table 20 and is the view
  the query 2 affects; and the shared segment after the query 1, and then both queries,
  have been registered and admitted there.
\<close>

definition ex_sched3 :: Sched where
  "ex_sched3 =
     spec_sched (ex_spec\<lparr>affectedImmvs := (\<lambda>p. if p = 2 then [200] else [100]),
                        dependenciesOf := (\<lambda>a. if a = 100 then Some [10, 11]
                                               else if a = 200 then Some [20] else None)\<rparr>)"

definition ex_one :: Shared where
  "ex_one =
     \<lparr>runningQuery = 1,
      entries = (entries ex_empty)
        (1 := \<lparr>status = QUERY_AVAILABLE, affected_tables = [100], xid = 7\<rparr>),
      registered = [1]\<rparr>"

definition ex_two :: Shared where
  "ex_two =
     \<lparr>runningQuery = 2,
      entries = (entries ex_empty)
        (1 := \<lparr>status = QUERY_AVAILABLE, affected_tables = [100], xid = 7\<rparr>,
         2 := \<lparr>status = QUERY_AVAILABLE, affected_tables = [200], xid = 7\<rparr>),
      registered = [1, 2]\<rparr>"

section \<open>Several sessions\<close>

text \<open>
  The sessions share the segment and the host's lock manager, and each runs the hooks
  above. A step of the system is one critical section, or one lock pass, of one session.
  Between the calls of the hooks a session is idle; inside
  \<^verbatim>\<open>pg_hook_execution_start\<close> it is at the read of the poll loop (lines 633-636), at
  the forced reschedule (lines 643-646), or at the lock pass.
\<close>

datatype phase = Idle | AtPoll QueryDesc QueryKey | AtHeal QueryDesc QueryKey | AtPass QueryDesc QueryKey

text \<open>
  For each session: its phase, the queries it has started and not yet cleaned up (each
  with the base tables its lock pass went through), and its lock table.
\<close>

record System =
  segment :: Shared
  phase_of :: "nat \<Rightarrow> phase"
  executing :: "nat \<Rightarrow> (QueryDesc \<times> Oid list) list"
  lock_tables :: "nat \<Rightarrow> LockTable"

text \<open>The lock manager grants an exclusive lock only if no other session holds it.\<close>

definition held_by_other :: "System \<Rightarrow> nat \<Rightarrow> LOCKTAG \<Rightarrow> bool" where
  "held_by_other S p tag = (\<exists>p'. p' \<noteq> p \<and> 0 < lock_tables S p' tag)"

text \<open>
  The steps. \<open>start\<close> is lines 617-627; \<open>read_heal\<close> and \<open>read_go\<close> are the read of
  lines 633-636 with the tests of lines 641 and 649 (a read that finds neither is a
  sleep and changes nothing); \<open>heal\<close> is lines 643-650. A lock pass is taken as one
  step; the attempts of the other sessions that fall into it show in \<open>bsy\<close>, which holds
  of every lock another session holds at the step and may hold of more (a lock another
  session held for a moment and gave back in its own retreat). \<open>pass_ok\<close> is the return
  of the hook, \<open>pass_retreat\<close> is lines 676-691, \<open>pass_error\<close> is an error raised in the
  pass. \<open>finish_return\<close> and \<open>finish_error\<close> are the cleanups of
  \<^verbatim>\<open>pg_hook_executor_run\<close>. \<open>other_lock\<close> is an exclusive lock the session takes by
  other means, and \<open>transaction_end\<close> is the host releasing every lock of the session
  when its transaction ends, by which time its queries are over.
\<close>

inductive step :: "(nat \<Rightarrow> Host) \<Rightarrow> Sched \<Rightarrow> System \<Rightarrow> System \<Rightarrow> bool"
  for hs :: "nat \<Rightarrow> Host" and c :: Sched where
  start:
    "phase_of S p = Idle \<Longrightarrow> register_query c q (segment S) = Inr (k, s') \<Longrightarrow>
     step hs c S (S\<lparr>segment := s', phase_of := (phase_of S)(p := AtPoll q k)\<rparr>)"
| read_heal:
    "phase_of S p = AtPoll q k \<Longrightarrow> runningQuery (segment S) = 0 \<Longrightarrow>
     status (entries (segment S) k) \<noteq> QUERY_AVAILABLE \<Longrightarrow>
     step hs c S (S\<lparr>phase_of := (phase_of S)(p := AtHeal q k)\<rparr>)"
| read_go:
    "phase_of S p = AtPoll q k \<Longrightarrow> status (entries (segment S) k) = QUERY_AVAILABLE \<Longrightarrow>
     step hs c S (S\<lparr>phase_of := (phase_of S)(p := AtPass q k)\<rparr>)"
| heal:
    "phase_of S p = AtHeal q k \<Longrightarrow> s' = Reschedule c (segment S) \<Longrightarrow>
     step hs c S
       (S\<lparr>segment := s',
          phase_of := (phase_of S)
            (p := if status (entries s' k) = QUERY_AVAILABLE then AtPass q k else AtPoll q k)\<rparr>)"
| pass_ok:
    "phase_of S p = AtPass q k \<Longrightarrow> \<forall>tag. held_by_other S p tag \<longrightarrow> bsy tag \<Longrightarrow>
     lock_pass (hs p) c bsy (entries (segment S) k) (lock_tables S p) = Continue L newlyLocked \<Longrightarrow>
     step hs c S
       (S\<lparr>phase_of := (phase_of S)(p := Idle),
          executing := (executing S)
            (p := (q, needed_tables c (entries (segment S) k)) # executing S p),
          lock_tables := (lock_tables S)(p := L)\<rparr>)"
| pass_retreat:
    "phase_of S p = AtPass q k \<Longrightarrow> \<forall>tag. held_by_other S p tag \<longrightarrow> bsy tag \<Longrightarrow>
     lock_pass (hs p) c bsy (entries (segment S) k) (lock_tables S p) = Retreat L \<Longrightarrow>
     step hs c S
       (S\<lparr>segment := give_up c k (segment S),
          phase_of := (phase_of S)(p := AtPoll q k),
          lock_tables := (lock_tables S)(p := L)\<rparr>)"
| pass_error:
    "phase_of S p = AtPass q k \<Longrightarrow> \<forall>tag. held_by_other S p tag \<longrightarrow> bsy tag \<Longrightarrow>
     lock_pass (hs p) c bsy (entries (segment S) k) (lock_tables S p) = Failed e L \<Longrightarrow>
     step hs c S
       (S\<lparr>phase_of := (phase_of S)(p := Idle), lock_tables := (lock_tables S)(p := L)\<rparr>)"
| finish_return:
    "phase_of S p = Idle \<Longrightarrow> (q, tables) \<in> set (executing S p) \<Longrightarrow>
     step hs c S
       (S\<lparr>segment := cleanup_on_return c q (segment S),
          executing := (executing S)(p := remove1 (q, tables) (executing S p))\<rparr>)"
| finish_error:
    "phase_of S p = Idle \<Longrightarrow> (q, tables) \<in> set (executing S p) \<Longrightarrow>
     step hs c S
       (S\<lparr>segment := cleanup_on_error c q (segment S),
          executing := (executing S)(p := remove1 (q, tables) (executing S p))\<rparr>)"
| other_lock:
    "\<not> held_by_other S p tag \<Longrightarrow>
     step hs c S
       (S\<lparr>lock_tables := (lock_tables S)(p := (lock_tables S p)(tag := lock_tables S p tag + 1))\<rparr>)"
| transaction_end:
    "phase_of S p = Idle \<Longrightarrow>
     step hs c S
       (S\<lparr>executing := (executing S)(p := []),
          lock_tables := (lock_tables S)(p := (\<lambda>tag. 0))\<rparr>)"

text \<open>
  The system begins with any segment, every session idle and holding no lock, and goes
  on by steps.
\<close>

definition initial :: "Shared \<Rightarrow> System" where
  "initial s =
     \<lparr>segment = s, phase_of = (\<lambda>p. Idle), executing = (\<lambda>p. []),
      lock_tables = (\<lambda>p tag. 0)\<rparr>"

inductive reachable :: "(nat \<Rightarrow> Host) \<Rightarrow> Sched \<Rightarrow> System \<Rightarrow> bool"
  for hs :: "nat \<Rightarrow> Host" and c :: Sched where
  at_first: "reachable hs c (initial s)"
| after_step: "reachable hs c S \<Longrightarrow> step hs c S S' \<Longrightarrow> reachable hs c S'"



section \<open>The lock pass: what it leaves in the lock table\<close>

lemma tag_eq_iff [simp]: "SetLocktagRelationOid h r = SetLocktagRelationOid h r' \<longleftrightarrow> r = r'"
  by (auto simp: SetLocktagRelationOid_def Let_def)

lemma tag_in_image [simp]: "SetLocktagRelationOid h r \<in> SetLocktagRelationOid h ` S \<longleftrightarrow> r \<in> S"
  by auto

lemma with_locks_empty [simp]: "with_locks h L {} = L"
  by (simp add: with_locks_def)

lemma unlock_with_locks:
  "distinct nl \<Longrightarrow> set nl \<inter> S = {} \<Longrightarrow>
   unlock_newlyLocked h nl (with_locks h L0 (set nl \<union> S)) = with_locks h L0 S"
proof (induction nl arbitrary: S)
  case Nil
  then show ?case by simp
next
  case (Cons r nl)
  have "UnlockRelationOid h (with_locks h L0 (set (r # nl) \<union> S)) r = with_locks h L0 (set nl \<union> S)"
    using Cons.prems by (auto simp: UnlockRelationOid_def with_locks_def Let_def fun_eq_iff)
  moreover have "distinct nl" "set nl \<inter> S = {}"
    using Cons.prems by auto
  ultimately show ?case using Cons.IH by simp
qed

lemma unlock_all_with_locks:
  "distinct nl \<Longrightarrow> unlock_newlyLocked h nl (with_locks h L0 (set nl)) = L0"
  using unlock_with_locks [of nl "{}" h L0] by simp

lemma lock_refed_tables_post:
  "pass_inv h L0 L nl \<Longrightarrow> pass_post h L0 nl (lock_refed_tables h bsy rs L nl)"
proof (induction rs arbitrary: L nl)
  case Nil
  then show ?case by (simp add: pass_post_def)
next
  case (Cons r rs)
  show ?case
  proof (cases "LockHeldByMe L (SetLocktagRelationOid h r)")
    case True
    then show ?thesis using Cons by simp
  next
    case False
    then have L0: "L (SetLocktagRelationOid h r) = 0" by (simp add: LockHeldByMe_def)
    with Cons.prems have r0: "L0 (SetLocktagRelationOid h r) = 0" and rn: "r \<notin> set nl"
      by (auto simp: pass_inv_def with_locks_def split: if_splits)
    show ?thesis
    proof (cases "bsy (SetLocktagRelationOid h r)")
      case True
      then have "lock_refed_tables h bsy (r # rs) L nl = Retreat (unlock_newlyLocked h nl L)"
        using False L0 by (simp add: ConditionalLockRelationOid_def Let_def)
      moreover have "unlock_newlyLocked h nl L = L0"
        using Cons.prems unlock_all_with_locks by (simp add: pass_inv_def)
      ultimately show ?thesis by (simp add: pass_post_def)
    next
      case nb: False
      let ?L' = "L(SetLocktagRelationOid h r := L (SetLocktagRelationOid h r) + 1)"
      have c: "ConditionalLockRelationOid h bsy L r = Some ?L'"
        using nb by (simp add: ConditionalLockRelationOid_def Let_def)
      have L': "?L' = with_locks h L0 (insert r (set nl))"
        using Cons.prems L0 r0 by (auto simp: pass_inv_def with_locks_def fun_eq_iff)
      show ?thesis
      proof (cases "(2::nat) ^ 31 \<le> r")
        case True
        then have "lock_refed_tables h bsy (r # rs) L nl = Failed (ERROR ''negative bitmapset member not allowed'') ?L'"
          using False c by (simp add: bms_add_member_def)
        moreover have "\<forall>x\<in>insert r (set nl). L0 (SetLocktagRelationOid h x) = 0"
          using Cons.prems r0 by (simp add: pass_inv_def)
        ultimately show ?thesis using L' unfolding pass_post_def by (simp del: fun_upd_apply) blast
      next
        case small: False
        have inv': "pass_inv h L0 ?L' (insort r nl)"
          using Cons.prems r0 rn L' by (simp add: pass_inv_def set_insort_key distinct_insort)
        have "lock_refed_tables h bsy (r # rs) L nl = lock_refed_tables h bsy rs ?L' (insort r nl)"
          using False c small rn by (simp add: bms_add_member_def)
        moreover have "pass_post h L0 (insort r nl) (lock_refed_tables h bsy rs ?L' (insort r nl))"
          using Cons.IH [OF inv'] .
        ultimately show ?thesis
          by (auto simp: pass_post_def set_insort_key split: pass.splits)
      qed
    qed
  qed
qed

lemma lock_affected_tables_post:
  "pass_inv h L0 L nl \<Longrightarrow> pass_post h L0 nl (lock_affected_tables h c bsy as L nl)"
proof (induction as arbitrary: L nl)
  case Nil
  then show ?case by (simp add: pass_post_def)
next
  case (Cons a as)
  show ?case
  proof (cases "getRefrenceImmv c a")
    case None
    then show ?thesis using Cons by simp
  next
    case (Some ri)
    have p: "pass_post h L0 nl (lock_refed_tables h bsy (take (refed_table_num ri) (refed_table ri)) L nl)"
      using lock_refed_tables_post [OF Cons.prems] .
    show ?thesis
    proof (cases "lock_refed_tables h bsy (take (refed_table_num ri) (refed_table ri)) L nl")
      case (Continue L' nl')
      with p have inv': "pass_inv h L0 L' nl'" and sub: "set nl \<subseteq> set nl'"
        by (simp_all add: pass_post_def)
      from Cons.IH [OF inv'] sub show ?thesis
        using Some Continue by (auto simp: pass_post_def split: pass.splits)
    next
      case (Retreat L')
      with p Some show ?thesis by (simp add: pass_post_def)
    next
      case (Failed e L')
      with p Some show ?thesis by (simp add: pass_post_def)
    qed
  qed
qed

lemma lock_pass_post: "pass_post h L [] (lock_pass h c bsy e L)"
  unfolding lock_pass_def by (rule lock_affected_tables_post) (simp add: pass_inv_def)


text \<open>
  A pass that goes on never lowers a lock count, and when it has gone through all the
  tables, every one of them is held.
\<close>

lemma lock_refed_tables_mono:
  "lock_refed_tables h bsy rs L nl = Continue L' nl' \<Longrightarrow> L tag \<le> L' tag"
proof (induction rs arbitrary: L nl)
  case Nil then show ?case by simp
next
  case (Cons r rs)
  show ?case
  proof (cases "LockHeldByMe L (SetLocktagRelationOid h r)")
    case True with Cons show ?thesis by simp
  next
    case False
    with Cons.prems obtain L1 nl1 where
      c: "ConditionalLockRelationOid h bsy L r = Some L1" and
      rest: "lock_refed_tables h bsy rs L1 nl1 = Continue L' nl'"
      by (auto split: option.splits sum.splits)
    from c have "L tag \<le> L1 tag"
      by (auto simp: ConditionalLockRelationOid_def Let_def split: if_splits)
    with Cons.IH [OF rest] show ?thesis by simp
  qed
qed








section \<open>Evaluating concrete runs\<close>

text \<open>The definitions of the small installation, for evaluating concrete runs.\<close>

lemmas ex_defs = ex_host_def ex_spec_def ex_sched_def ex_empty_def ex_world_def ex_query_def
  quiet_def contended_def ex_admitted_def ex_started_def ex_holding_def ex_query2_def ex_big_query_def ex_sched2_def ex_retreated_def ex_queued_def ex_sched3_def ex_one_def ex_two_def spec_sched_def spec_register_def spec_deregister_def
  spec_Reschedule_def spec_getRefrenceImmv_def

lemmas run_defs = pg_hook_execution_start_def skips_enforcement_def enable_enforce_def
  register_query_def poll_def lock_pass_def visited_tables_def give_up_def set_status_def
  pg_hook_executor_run_def cleanup_enabled_def cleanup_on_return_def cleanup_on_error_def
  pg_hook_process_utility_def finish_def ConditionalLockRelationOid_def LockHeldByMe_def
  SetLocktagRelationOid_def UnlockRelationOid_def bms_add_member_def InvalidOid_def
  EXEC_FLAG_EXPLAIN_ONLY_def EXEC_FLAG_EXPLAIN_GENERIC_def Let_def

section \<open>The retreat after a failed lock attempt\<close>



section \<open>Locks the session holds already\<close>

lemma lock_refed_tables_busy_cong:
  "(\<forall>tag. L tag = 0 \<longrightarrow> b tag = b' tag) \<Longrightarrow>
   lock_refed_tables h b rs L nl = lock_refed_tables h b' rs L nl"
proof (induction rs arbitrary: L nl)
  case Nil then show ?case by simp
next
  case (Cons r rs)
  show ?case
  proof (cases "LockHeldByMe L (SetLocktagRelationOid h r)")
    case True with Cons show ?thesis by simp
  next
    case False
    then have r0: "L (SetLocktagRelationOid h r) = 0" by (simp add: LockHeldByMe_def)
    with Cons.prems have bb: "b (SetLocktagRelationOid h r) = b' (SetLocktagRelationOid h r)" by blast
    then have c: "ConditionalLockRelationOid h b L r = ConditionalLockRelationOid h b' L r"
      by (simp add: ConditionalLockRelationOid_def Let_def)
    show ?thesis
    proof (cases "ConditionalLockRelationOid h b' L r")
      case None
      with c False show ?thesis by simp
    next
      case (Some L1)
      then have "\<forall>tag. L1 tag = 0 \<longrightarrow> L tag = 0"
        by (auto simp: ConditionalLockRelationOid_def Let_def split: if_splits)
      with Cons.prems have "\<forall>tag. L1 tag = 0 \<longrightarrow> b tag = b' tag" by blast
      from Cons.IH [OF this] c Some False show ?thesis
        by (simp split: sum.splits)
    qed
  qed
qed

lemma lock_affected_tables_busy_cong:
  "(\<forall>tag. L tag = 0 \<longrightarrow> b tag = b' tag) \<Longrightarrow>
   lock_affected_tables h c b as L nl = lock_affected_tables h c b' as L nl"
proof (induction as arbitrary: L nl)
  case Nil then show ?case by simp
next
  case (Cons a as)
  show ?case
  proof (cases "getRefrenceImmv c a")
    case None with Cons show ?thesis by simp
  next
    case (Some ri)
    let ?rs = "take (refed_table_num ri) (refed_table ri)"
    have eq: "lock_refed_tables h b ?rs L nl = lock_refed_tables h b' ?rs L nl"
      using Cons.prems by (rule lock_refed_tables_busy_cong)
    show ?thesis
    proof (cases "lock_refed_tables h b' ?rs L nl")
      case (Continue L1 nl1)
      from lock_refed_tables_mono [OF Continue] have "\<forall>tag. L1 tag = 0 \<longrightarrow> L tag = 0"
        by (metis le_zero_eq)
      with Cons.prems have "\<forall>tag. L1 tag = 0 \<longrightarrow> b tag = b' tag" by blast
      from Cons.IH [OF this] eq Continue Some show ?thesis by simp
    next
      case (Retreat L1) with eq Some show ?thesis by simp
    next
      case (Failed e L1) with eq Some show ?thesis by simp
    qed
  qed
qed

lemma lock_refed_tables_all_held:
  "\<forall>r\<in>set rs. LockHeldByMe L (SetLocktagRelationOid h r) \<Longrightarrow>
   lock_refed_tables h b rs L nl = Continue L nl"
  by (induction rs) simp_all

lemma lock_affected_tables_all_held:
  "\<forall>r\<in>set (concat (map (refed_tables_of c) as)). LockHeldByMe L (SetLocktagRelationOid h r) \<Longrightarrow>
   lock_affected_tables h c b as L nl = Continue L nl"
proof (induction as)
  case Nil then show ?case by simp
next
  case (Cons a as)
  show ?case
  proof (cases "getRefrenceImmv c a")
    case None with Cons show ?thesis by simp
  next
    case (Some ri)
    with Cons.prems have "\<forall>r\<in>set (take (refed_table_num ri) (refed_table ri)).
        LockHeldByMe L (SetLocktagRelationOid h r)"
      by (simp add: refed_tables_of_def)
    from lock_refed_tables_all_held [OF this] Cons Some show ?thesis by simp
  qed
qed

lemma pass_post_locks:
  assumes "pass_post h L [] p"
  shows "(0 < L tag \<longrightarrow> pass_locks p tag = L tag) \<and> pass_locks p tag \<le> max 1 (L tag)"
proof (cases p)
  case (Continue L' nl')
  with assms have "L' = with_locks h L (set nl')" "\<forall>r\<in>set nl'. L (SetLocktagRelationOid h r) = 0"
    by (simp_all add: pass_post_def pass_inv_def)
  then show ?thesis using Continue by (auto simp: with_locks_def)
next
  case (Retreat L')
  with assms show ?thesis by (simp add: pass_post_def)
next
  case (Failed e L')
  with assms obtain S where "L' = with_locks h L S" "\<forall>r\<in>S. L (SetLocktagRelationOid h r) = 0"
    by (auto simp: pass_post_def)
  then show ?thesis using Failed by (auto simp: with_locks_def)
qed

text \<open>
  Claim C5. In a lock pass, a table whose exclusive lock the session holds already is
  skipped: whatever the end of the pass, the count of every lock held at its beginning
  is unchanged (no second lock on the same table), and no lock ends with a count above
  one unless it began so. The pass does not depend on whether the tables held already
  are busy for others, so the session is never stopped by its own lock; and when every
  table of the query is held already the pass ends at once, with the lock table as it
  was and nothing newly locked. Every acquisition in the pass is the non-blocking
  \<^verbatim>\<open>ConditionalLockRelationOid\<close>.
\<close>

theorem C5_held_locks_are_skipped:
  "(\<forall>tag. LockHeldByMe L tag \<longrightarrow> pass_locks (lock_pass h c bsy e L) tag = L tag) \<and>
   (\<forall>tag. pass_locks (lock_pass h c bsy e L) tag \<le> max 1 (L tag)) \<and>
   lock_pass h c (\<lambda>tag. bsy tag \<or> LockHeldByMe L tag) e L = lock_pass h c bsy e L \<and>
   ((\<forall>r\<in>set (needed_tables c e). LockHeldByMe L (SetLocktagRelationOid h r)) \<longrightarrow>
      lock_pass h c bsy e L = Continue L [])"
proof -
  have p: "pass_post h L [] (lock_pass h c bsy e L)" by (rule lock_pass_post)
  have 1: "\<forall>tag. LockHeldByMe L tag \<longrightarrow> pass_locks (lock_pass h c bsy e L) tag = L tag"
    using pass_post_locks [OF p] by (simp add: LockHeldByMe_def)
  have 2: "\<forall>tag. pass_locks (lock_pass h c bsy e L) tag \<le> max 1 (L tag)"
    using pass_post_locks [OF p] by blast
  have 3: "lock_pass h c (\<lambda>tag. bsy tag \<or> LockHeldByMe L tag) e L = lock_pass h c bsy e L"
    unfolding lock_pass_def
    by (rule lock_affected_tables_busy_cong) (simp add: LockHeldByMe_def)
  have 4: "(\<forall>r\<in>set (needed_tables c e). LockHeldByMe L (SetLocktagRelationOid h r)) \<longrightarrow>
      lock_pass h c bsy e L = Continue L []"
    unfolding lock_pass_def needed_tables_def
    using lock_affected_tables_all_held by blast
  from 1 2 3 4 show ?thesis by blast
qed

text \<open>In the small installation, with the lock on table 10 held before the pass.\<close>

theorem C5_held_locks_are_skipped_witness:
  "LockHeldByMe ex_holding (5, 10) \<and>
   pass_locks (lock_pass ex_host ex_sched (\<lambda>tag. True) (entries (shm ex_admitted) 1) ex_holding) (5, 10) = 1 \<and>
   pass_locks (lock_pass ex_host ex_sched (busy quiet) (entries (shm ex_admitted) 1) ex_holding) (5, 11) \<le> 1 \<and>
   list_all (\<lambda>r. LockHeldByMe (\<lambda>tag. 1) (SetLocktagRelationOid ex_host r))
     (needed_tables ex_sched (entries (shm ex_admitted) 1)) \<and>
   lock_pass ex_host ex_sched (\<lambda>tag. True) (entries (shm ex_admitted) 1) (\<lambda>tag. 1) = Continue (\<lambda>tag. 1) []"
proof -
  have h: "LockHeldByMe ex_holding (5, 10)" and h10: "ex_holding (5, 10) = 1"
    and h11: "max 1 (ex_holding (5, 11)) = 1"
    by (simp_all add: LockHeldByMe_def ex_holding_def)
  have a: "\<forall>r\<in>set (needed_tables ex_sched (entries (shm ex_admitted) 1)).
       LockHeldByMe (\<lambda>tag. 1) (SetLocktagRelationOid ex_host r)"
    by (simp add: LockHeldByMe_def)
  have 1: "pass_locks (lock_pass ex_host ex_sched (\<lambda>tag. True) (entries (shm ex_admitted) 1) ex_holding) (5, 10) = 1"
    using C5_held_locks_are_skipped [of ex_holding ex_host ex_sched "\<lambda>tag. True" "entries (shm ex_admitted) 1"] h h10
    by simp
  have 2: "pass_locks (lock_pass ex_host ex_sched (busy quiet) (entries (shm ex_admitted) 1) ex_holding) (5, 11) \<le> 1"
    using C5_held_locks_are_skipped [of ex_holding ex_host ex_sched "busy quiet" "entries (shm ex_admitted) 1"] h11
    by metis
  have 3: "lock_pass ex_host ex_sched (\<lambda>tag. True) (entries (shm ex_admitted) 1) (\<lambda>tag. 1) = Continue (\<lambda>tag. 1) []"
    using C5_held_locks_are_skipped [of "\<lambda>tag. 1" ex_host ex_sched "\<lambda>tag. True" "entries (shm ex_admitted) 1"] a
    by blast
  from a have "list_all (\<lambda>r. LockHeldByMe (\<lambda>tag. 1) (SetLocktagRelationOid ex_host r))
     (needed_tables ex_sched (entries (shm ex_admitted) 1))"
    by (simp add: list_all_iff)
  with h 1 2 3 show ?thesis by blast
qed

section \<open>Nested calls of the hooks\<close>

lemma waiting_statics:
  "nesting_level (world_of (waiting h c k rounds w)) = nesting_level w \<and>
   full_process (world_of (waiting h c k rounds w)) = full_process w \<and>
   isUtility (world_of (waiting h c k rounds w)) = isUtility w"
proof (induction rounds arbitrary: w)
  case Nil
  then show ?case by simp
next
  case (Cons r rs)
  obtain st s where p: "poll c k r (shm w) = (st, s)" by (cases "poll c k r (shm w)")
  show ?case
  proof (cases "st = QUERY_AVAILABLE")
    case False
    with p Cons.IH [of "w\<lparr>shm := s\<rparr>"] show ?thesis by simp
  next
    case True
    show ?thesis
    proof (cases "lock_pass h c (busy r) (entries s k) (locks w)")
      case (Continue L nl)
      with p True show ?thesis by simp
    next
      case (Retreat L)
      with p True Cons.IH [of "w\<lparr>shm := give_up c k (before_give_up r s), locks := L\<rparr>"]
      show ?thesis by simp
    next
      case (Failed e L)
      with p True show ?thesis by simp
    qed
  qed
qed

lemma start_statics:
  "nesting_level (world_of (pg_hook_execution_start h c q ef std rounds w)) = nesting_level w \<and>
   isUtility (world_of (pg_hook_execution_start h c q ef std rounds w)) = isUtility w"
  using waiting_statics
  by (auto simp: pg_hook_execution_start_def Let_def split: option.splits sum.splits prod.splits)


lemma start_skipped:
  "skips_enforcement h q ef w \<Longrightarrow>
   pg_hook_execution_start h c q ef std rounds w =
     (case std of None \<Rightarrow> Returned w | Some e \<Rightarrow> Raised e w)"
  by (simp add: pg_hook_execution_start_def split: option.splits)

text \<open>
  The wait loop changes none of the static variables. At a nesting level of one or
  more, a call of a hook changes nothing but the utility flag, and never waits.
\<close>

lemma nested_untouched:
  "1 \<le> nesting_level w \<Longrightarrow>
     \<not> still_polling (run_call h c x w) \<and>
     world_of (run_call h c x w) = w\<lparr>isUtility := isUtility (world_of (run_call h c x w))\<rparr>"
  "1 \<le> nesting_level w \<Longrightarrow>
     \<not> still_polling (run_calls h c xs w) \<and>
     world_of (run_calls h c xs w) = w\<lparr>isUtility := isUtility (world_of (run_calls h c xs w))\<rparr>"
proof (induction h c x w and h c xs w rule: run_call_run_calls.induct)
  case (1 h c queryDesc eflags std rounds w)
  then have "skips_enforcement h queryDesc eflags w"
    by (simp add: skips_enforcement_def enable_enforce_def)
  then show ?case by (simp add: start_skipped split: option.splits)
next
  case (2 h c queryDesc body err w)
  let ?w1 = "w\<lparr>nesting_level := nesting_level w + 1\<rparr>"
  from 2 have n1: "1 \<le> nesting_level ?w1" by simp
  note ih = "2.IH" [OF n1]
  show ?case
  proof (cases "run_calls h c body ?w1")
    case (Returned w2)
    with ih have w2: "w2 = ?w1\<lparr>isUtility := isUtility w2\<rparr>" by simp
    then have lv: "nesting_level w2 = nesting_level w + 1" "full_process w2 = full_process w"
      "shm w2 = shm w" "locks w2 = locks w"
      by (metis World.select_convs World.surjective World.update_convs)+
    with "2.prems" Returned show ?thesis
      by (cases err) (simp_all add: pg_hook_executor_run_def finish_def cleanup_enabled_def enable_enforce_def Let_def)
  next
    case (Raised e w2)
    with ih have w2: "w2 = ?w1\<lparr>isUtility := isUtility w2\<rparr>" by simp
    then have lv: "nesting_level w2 = nesting_level w + 1" "full_process w2 = full_process w"
      "shm w2 = shm w" "locks w2 = locks w"
      by (metis World.select_convs World.surjective World.update_convs)+
    with "2.prems" Raised show ?thesis
      by (simp add: pg_hook_executor_run_def finish_def cleanup_enabled_def enable_enforce_def Let_def)
  next
    case (Polling w2)
    with ih show ?thesis by simp
  qed
next
  case (3 h c body err w)
  let ?w1 = "w\<lparr>isUtility := True\<rparr>"
  from 3 have n1: "1 \<le> nesting_level ?w1" by simp
  note ih = "3.IH" [OF n1]
  show ?case
  proof (cases "run_calls h c body ?w1")
    case (Returned w2)
    with ih have w2: "w2 = ?w1\<lparr>isUtility := isUtility w2\<rparr>" by simp
    then have lv: "nesting_level w2 = nesting_level w" "full_process w2 = full_process w"
      "shm w2 = shm w" "locks w2 = locks w"
      by (metis World.select_convs World.surjective World.update_convs)+
    with Returned show ?thesis
      by (cases err) (simp_all add: pg_hook_process_utility_def finish_def)
  next
    case (Raised e w2)
    with ih have w2: "w2 = ?w1\<lparr>isUtility := isUtility w2\<rparr>" by simp
    then have lv: "nesting_level w2 = nesting_level w" "full_process w2 = full_process w"
      "shm w2 = shm w" "locks w2 = locks w"
      by (metis World.select_convs World.surjective World.update_convs)+
    with Raised show ?thesis
      by (simp add: pg_hook_process_utility_def finish_def)
  next
    case (Polling w2)
    with ih show ?thesis by simp
  qed
next
  case (4 h c w)
  then show ?case by simp
next
  case (5 h c x xs w)
  note ih1 = "5.IH"(1) [OF "5.prems"]
  show ?case
  proof (cases "run_call h c x w")
    case (Returned w1)
    with ih1 have w1: "w1 = w\<lparr>isUtility := isUtility w1\<rparr>" by simp
    then have "nesting_level w1 = nesting_level w" by (metis World.select_convs World.surjective World.update_convs)
    with "5.prems" have "1 \<le> nesting_level w1" by simp
    from "5.IH"(2) [OF Returned this] Returned w1 show ?thesis
      by simp (metis World.update_convs(3) World.surjective)
  next
    case (Raised e w1)
    with ih1 show ?thesis by simp
  next
    case (Polling w1)
    with ih1 show ?thesis by simp
  qed
qed

lemma run_exit_statics:
  "pg_hook_executor_run h c q std w = r \<Longrightarrow> \<not> still_polling r \<Longrightarrow>
   \<not> still_polling (std (w\<lparr>nesting_level := nesting_level w + 1\<rparr>)) \<and>
   nesting_level (world_of r) = nesting_level (world_of (std (w\<lparr>nesting_level := nesting_level w + 1\<rparr>))) - 1 \<and>
   isUtility (world_of r) = isUtility (world_of (std (w\<lparr>nesting_level := nesting_level w + 1\<rparr>)))"
  by (cases "std (w\<lparr>nesting_level := nesting_level w + 1\<rparr>)")
     (auto simp: pg_hook_executor_run_def Let_def split: if_splits)

lemma finish_world [simp]: "world_of (finish err r) = world_of r"
  by (cases r; cases err) (simp_all add: finish_def)

lemma finish_polling [simp]: "still_polling (finish err r) = still_polling r"
  by (cases r; cases err) (simp_all add: finish_def)

lemma balanced:
  "\<not> still_polling (run_call h c x w) \<Longrightarrow>
     nesting_level (world_of (run_call h c x w)) = nesting_level w \<and>
     (isUtility (world_of (run_call h c x w)) \<longrightarrow> isUtility w)"
  "\<not> still_polling (run_calls h c xs w) \<Longrightarrow>
     nesting_level (world_of (run_calls h c xs w)) = nesting_level w \<and>
     (isUtility (world_of (run_calls h c xs w)) \<longrightarrow> isUtility w)"
proof (induction h c x w and h c xs w rule: run_call_run_calls.induct)
  case (1 h c queryDesc eflags std rounds w)
  then show ?case using start_statics by simp
next
  case (2 h c queryDesc body err w)
  let ?w1 = "w\<lparr>nesting_level := nesting_level w + 1\<rparr>"
  let ?std = "\<lambda>w'. finish err (run_calls h c body w')"
  from "2.prems" have np: "\<not> still_polling (pg_hook_executor_run h c queryDesc ?std w)" by simp
  from run_exit_statics [OF refl np]
  have a: "\<not> still_polling (run_calls h c body ?w1)"
    and b: "nesting_level (world_of (run_call h c (ExecutorRun queryDesc body err) w)) =
            nesting_level (world_of (run_calls h c body ?w1)) - 1"
    and d: "isUtility (world_of (run_call h c (ExecutorRun queryDesc body err) w)) =
            isUtility (world_of (run_calls h c body ?w1))"
    by simp_all
  from "2.IH" [OF a] b d show ?case by simp
next
  case (3 h c body err w)
  let ?w1 = "w\<lparr>isUtility := True\<rparr>"
  from "3.prems" have np: "\<not> still_polling (run_calls h c body ?w1)"
    by (cases "run_calls h c body ?w1"; cases err)
       (simp_all add: pg_hook_process_utility_def finish_def)
  from "3.IH" [OF np] np show ?case
    by (cases "run_calls h c body ?w1"; cases err)
       (simp_all add: pg_hook_process_utility_def finish_def)
next
  case (4 h c w)
  then show ?case by simp
next
  case (5 h c x xs w)
  show ?case
  proof (cases "run_call h c x w")
    case (Returned w1)
    then have np1: "\<not> still_polling (run_call h c x w)" by simp
    from "5.prems" Returned have np2: "\<not> still_polling (run_calls h c xs w1)" by simp
    from "5.IH"(1) [OF np1] "5.IH"(2) [OF Returned np2] Returned show ?thesis by simp
  next
    case (Raised e w1)
    then have np1: "\<not> still_polling (run_call h c x w)" by simp
    from "5.IH"(1) [OF np1] Raised show ?thesis by simp
  next
    case (Polling w1)
    with "5.prems" show ?thesis by simp
  qed
qed


lemma world_same_level [simp]: "w\<lparr>nesting_level := nesting_level w\<rparr> = w"
  by (cases w) simp


lemma nested_body_untouched:
  assumes "0 \<le> nesting_level w"
  shows "\<not> still_polling (finish err (run_calls h c body (w\<lparr>nesting_level := nesting_level w + 1\<rparr>))) \<and>
         shm (world_of (finish err (run_calls h c body (w\<lparr>nesting_level := nesting_level w + 1\<rparr>)))) = shm w \<and>
         locks (world_of (finish err (run_calls h c body (w\<lparr>nesting_level := nesting_level w + 1\<rparr>)))) = locks w \<and>
         full_process (world_of (finish err (run_calls h c body (w\<lparr>nesting_level := nesting_level w + 1\<rparr>)))) = full_process w \<and>
         nesting_level (world_of (finish err (run_calls h c body (w\<lparr>nesting_level := nesting_level w + 1\<rparr>)))) = nesting_level w + 1"
proof -
  let ?w1 = "w\<lparr>nesting_level := nesting_level w + 1\<rparr>"
  from assms have n1: "1 \<le> nesting_level ?w1" by simp
  from nested_untouched(2) [OF n1, of h c body]
  have np: "\<not> still_polling (run_calls h c body ?w1)"
    and eq: "world_of (run_calls h c body ?w1) = ?w1\<lparr>isUtility := isUtility (world_of (run_calls h c body ?w1))\<rparr>"
    by simp_all
  from eq have "shm (world_of (run_calls h c body ?w1)) = shm w"
    "locks (world_of (run_calls h c body ?w1)) = locks w"
    "full_process (world_of (run_calls h c body ?w1)) = full_process w"
    "nesting_level (world_of (run_calls h c body ?w1)) = nesting_level w + 1"
    by (metis World.select_convs World.surjective World.update_convs)+
  with np show ?thesis by simp
qed

section \<open>Queries the hook on ExecutorStart lets through\<close>

lemma explain_flags:
  "(eflags AND (EXEC_FLAG_EXPLAIN_GENERIC OR EXEC_FLAG_EXPLAIN_ONLY) \<noteq> 0) \<longleftrightarrow>
   (eflags AND EXEC_FLAG_EXPLAIN_GENERIC \<noteq> 0 \<or> eflags AND EXEC_FLAG_EXPLAIN_ONLY \<noteq> (0::32 word))"
  by (auto simp: bit.conj_disj_distrib or_eq_0_iff)

text \<open>
  Claim C9. If the source text of the query is the empty string, or its executor flags
  include \<^verbatim>\<open>EXEC_FLAG_EXPLAIN_GENERIC\<close> or \<^verbatim>\<open>EXEC_FLAG_EXPLAIN_ONLY\<close>, then
  \<^verbatim>\<open>pg_hook_execution_start\<close> is over as soon as the standard executor start is: it
  returns (or passes on the error of the standard start) with the world as it was, so
  the query is not registered, does not wait and takes no lock.
\<close>

theorem C9_empty_text_or_explain_returns_at_once:
  assumes "sourceText q = '''' \<or> eflags AND EXEC_FLAG_EXPLAIN_GENERIC \<noteq> 0 \<or>
           eflags AND EXEC_FLAG_EXPLAIN_ONLY \<noteq> 0"
  shows "pg_hook_execution_start h c q eflags std rounds w =
           (case std of None \<Rightarrow> Returned w | Some e \<Rightarrow> Raised e w)"
proof -
  from assms have "skips_enforcement h q eflags w"
    unfolding skips_enforcement_def explain_flags by blast
  then show ?thesis by (rule start_skipped)
qed

text \<open>In the small installation: an empty text, and each of the two flags.\<close>

theorem C9_empty_text_or_explain_returns_at_once_witness:
  "sourceText (ex_query\<lparr>sourceText := ''''\<rparr>) = '''' \<and>
   pg_hook_execution_start ex_host ex_sched (ex_query\<lparr>sourceText := ''''\<rparr>) 0 None [quiet] ex_world
     = Returned ex_world \<and>
   (1 :: 32 word) AND EXEC_FLAG_EXPLAIN_ONLY \<noteq> 0 \<and>
   pg_hook_execution_start ex_host ex_sched ex_query 1 None [quiet] ex_world = Returned ex_world \<and>
   (2 :: 32 word) AND EXEC_FLAG_EXPLAIN_GENERIC \<noteq> 0 \<and>
   pg_hook_execution_start ex_host ex_sched ex_query 2 None [quiet] ex_world = Returned ex_world"
proof -
  have a: "sourceText (ex_query\<lparr>sourceText := ''''\<rparr>) = ''''" by simp
  have b: "(1 :: 32 word) AND EXEC_FLAG_EXPLAIN_ONLY \<noteq> 0"
    by (simp add: EXEC_FLAG_EXPLAIN_ONLY_def)
  have d: "(2 :: 32 word) AND EXEC_FLAG_EXPLAIN_GENERIC \<noteq> 0"
    by (simp add: EXEC_FLAG_EXPLAIN_GENERIC_def)
  from C9_empty_text_or_explain_returns_at_once [of "ex_query\<lparr>sourceText := ''''\<rparr>" 0 ex_host ex_sched None "[quiet]" ex_world]
    C9_empty_text_or_explain_returns_at_once [of ex_query 1 ex_host ex_sched None "[quiet]" ex_world]
    C9_empty_text_or_explain_returns_at_once [of ex_query 2 ex_host ex_sched None "[quiet]" ex_world]
    a b d
  show ?thesis by simp
qed

section \<open>Where enforcement is entered\<close>

text \<open>
  The guard of lines 610-613, by the values of the static variables. An ExecutorStart
  that is called while \<^verbatim>\<open>isUtility\<close> is set, at a nesting level other than zero, or in a
  parallel worker is let through: the hook ends with the world as it was, so nothing is
  registered, nothing waits and no lock is taken. Whatever statements are started and
  run inside an ExecutorRun (nested, re-entrant executions), the shared segment, the
  lock table and \<^verbatim>\<open>full_process\<close> are the same after them as before, and none of them
  waits. A start with the flag clear, at nesting level zero, outside a parallel worker,
  with a text and without the explain flags, enters the protocol once:
  \<^verbatim>\<open>full_process\<close> goes up by one, \<^verbatim>\<open>LogQuery\<close> and \<^verbatim>\<open>Reschedule\<close> are applied once,
  and the wait loop follows.
\<close>

lemma enforcement_guard:
  "((isUtility w \<or> nesting_level w \<noteq> 0 \<or> IsParallelWorker h) \<longrightarrow>
      pg_hook_execution_start h c q eflags std rounds w =
        (case std of None \<Rightarrow> Returned w | Some e \<Rightarrow> Raised e w)) \<and>
   (0 \<le> nesting_level w \<longrightarrow>
      \<not> still_polling (finish err (run_calls h c body (w\<lparr>nesting_level := nesting_level w + 1\<rparr>))) \<and>
      shm (world_of (finish err (run_calls h c body (w\<lparr>nesting_level := nesting_level w + 1\<rparr>)))) = shm w \<and>
      locks (world_of (finish err (run_calls h c body (w\<lparr>nesting_level := nesting_level w + 1\<rparr>)))) = locks w \<and>
      full_process (world_of (finish err (run_calls h c body (w\<lparr>nesting_level := nesting_level w + 1\<rparr>)))) = full_process w) \<and>
   (\<not> isUtility w \<and> nesting_level w = 0 \<and> \<not> IsParallelWorker h \<and> sourceText q \<noteq> '''' \<and>
    eflags AND (EXEC_FLAG_EXPLAIN_GENERIC OR EXEC_FLAG_EXPLAIN_ONLY) = 0 \<longrightarrow>
      pg_hook_execution_start h c q eflags None rounds w =
        (case LogQuery c (shm w) (plannedstmt q) (sourceText q) of
           Inl e \<Rightarrow> Raised e (w\<lparr>full_process := full_process w + 1\<rparr>)
         | Inr (query_entry, s) \<Rightarrow>
             waiting h c query_entry rounds
               (w\<lparr>full_process := full_process w + 1, shm := Reschedule c s\<rparr>)))"
proof -
  have 1: "(isUtility w \<or> nesting_level w \<noteq> 0 \<or> IsParallelWorker h) \<longrightarrow>
      pg_hook_execution_start h c q eflags std rounds w =
        (case std of None \<Rightarrow> Returned w | Some e \<Rightarrow> Raised e w)"
    using start_skipped [of h q eflags w c std rounds]
    by (auto simp: skips_enforcement_def enable_enforce_def)
  have 3: "\<not> isUtility w \<and> nesting_level w = 0 \<and> \<not> IsParallelWorker h \<and> sourceText q \<noteq> '''' \<and>
    eflags AND (EXEC_FLAG_EXPLAIN_GENERIC OR EXEC_FLAG_EXPLAIN_ONLY) = 0 \<longrightarrow>
      pg_hook_execution_start h c q eflags None rounds w =
        (case LogQuery c (shm w) (plannedstmt q) (sourceText q) of
           Inl e \<Rightarrow> Raised e (w\<lparr>full_process := full_process w + 1\<rparr>)
         | Inr (query_entry, s) \<Rightarrow>
             waiting h c query_entry rounds
               (w\<lparr>full_process := full_process w + 1, shm := Reschedule c s\<rparr>))"
    by (auto simp: pg_hook_execution_start_def skips_enforcement_def enable_enforce_def
        register_query_def Let_def split: sum.splits)
  from 1 3 nested_body_untouched [of w err h c body] show ?thesis by blast
qed

text \<open>
  Claim C6 says that a query executing as a utility command is never registered and
  never subject to enforcement. The guard reads the flag \<^verbatim>\<open>isUtility\<close>, and
  \<^verbatim>\<open>pg_hook_process_utility\<close> clears the flag on its way out (line 815) instead of
  putting back the value it found (line 791 sets it, whatever it was). So when a utility
  command runs another utility command inside itself (a sub-command, or a command run by
  a procedure or a \<^verbatim>\<open>DO\<close> block), a query that the outer command starts afterwards
  meets the guard exactly as a query outside any utility command does. In the small
  installation: the query started by a utility command is let through when nothing ran
  before it, and is registered, admitted and given its two locks when an inner utility
  command ran before it.
\<close>

theorem C6_enforced_inside_utility_command:
  "run_calls h c [ProcessUtility [] None, ExecutorStart q eflags std rounds] (w\<lparr>isUtility := True\<rparr>)
     = pg_hook_execution_start h c q eflags std rounds (w\<lparr>isUtility := False\<rparr>) \<and>
   run_call ex_host ex_sched
     (ProcessUtility [ExecutorStart ex_query 0 None [quiet]] None) ex_world = Returned ex_world \<and>
   run_call ex_host ex_sched
     (ProcessUtility [ProcessUtility [] None, ExecutorStart ex_query 0 None [quiet]] None) ex_world
     = Returned ex_started \<and>
   registered (shm ex_world) = [] \<and> locks ex_world (5, 10) = 0 \<and> locks ex_world (5, 11) = 0 \<and>
   registered (shm ex_started) = [1] \<and> status (entries (shm ex_started) 1) = QUERY_AVAILABLE \<and>
   runningQuery (shm ex_started) = 1 \<and> full_process ex_started = 1 \<and>
   locks ex_started (5, 10) = 1 \<and> locks ex_started (5, 11) = 1"
proof -
  have g: "run_calls h c [ProcessUtility [] None, ExecutorStart q eflags std rounds] (w\<lparr>isUtility := True\<rparr>)
     = pg_hook_execution_start h c q eflags std rounds (w\<lparr>isUtility := False\<rparr>)"
    by (cases "pg_hook_execution_start h c q eflags std rounds (w\<lparr>isUtility := False\<rparr>)")
       (simp_all add: pg_hook_process_utility_def finish_def)
  have e: "run_call ex_host ex_sched
     (ProcessUtility [ExecutorStart ex_query 0 None [quiet]] None) ex_world = Returned ex_world"
    "run_call ex_host ex_sched
     (ProcessUtility [ProcessUtility [] None, ExecutorStart ex_query 0 None [quiet]] None) ex_world
     = Returned ex_started"
    by (simp_all add: run_defs ex_defs fun_eq_iff)
  have f: "registered (shm ex_world) = []" "locks ex_world (5, 10) = 0" "locks ex_world (5, 11) = 0"
    "registered (shm ex_started) = [1]" "status (entries (shm ex_started) 1) = QUERY_AVAILABLE"
    "runningQuery (shm ex_started) = 1" "full_process ex_started = 1"
    "locks ex_started (5, 10) = 1" "locks ex_started (5, 11) = 1"
    by (simp_all add: ex_defs)
  from g e f show ?thesis by (simp del: run_call.simps run_calls.simps)
qed

section \<open>The cleanup after ExecutorRun\<close>




section \<open>The counter of ExecutorStart calls\<close>






section \<open>The utility flag\<close>

lemma under_utility_untouched:
  "isUtility w \<Longrightarrow> no_utility x \<Longrightarrow>
     \<not> still_polling (run_call h c x w) \<and> world_of (run_call h c x w) = w"
  "isUtility w \<Longrightarrow> list_all no_utility xs \<Longrightarrow>
     \<not> still_polling (run_calls h c xs w) \<and> world_of (run_calls h c xs w) = w"
proof (induction h c x w and h c xs w rule: run_call_run_calls.induct)
  case (1 h c queryDesc eflags std rounds w)
  then have "skips_enforcement h queryDesc eflags w"
    by (simp add: skips_enforcement_def enable_enforce_def)
  then show ?case by (simp add: start_skipped split: option.splits)
next
  case (2 h c queryDesc body err w)
  let ?w1 = "w\<lparr>nesting_level := nesting_level w + 1\<rparr>"
  from 2 have "isUtility ?w1" "list_all no_utility body" by simp_all
  from "2.IH" [OF this]
  have np: "\<not> still_polling (run_calls h c body ?w1)" and eq: "world_of (run_calls h c body ?w1) = ?w1"
    by simp_all
  have bk: "?w1\<lparr>nesting_level := nesting_level ?w1 - 1\<rparr> = w" by (cases w) simp
  have ne: "\<not> cleanup_enabled h queryDesc w"
    using "2.prems" by (simp add: cleanup_enabled_def enable_enforce_def)
  show ?case
  proof (cases "run_calls h c body ?w1")
    case (Returned w2)
    with eq have "w2 = ?w1" by simp
    with Returned bk ne show ?thesis
      by (cases err) (simp_all add: pg_hook_executor_run_def finish_def Let_def)
  next
    case (Raised e w2)
    with eq have "w2 = ?w1" by simp
    with Raised bk ne show ?thesis
      by (simp add: pg_hook_executor_run_def finish_def Let_def)
  next
    case (Polling w2)
    with np show ?thesis by simp
  qed
next
  case (3 h c body err w)
  then show ?case by simp
next
  case (4 h c w)
  then show ?case by simp
next
  case (5 h c x xs w)
  from "5.prems" have nx: "no_utility x" and nxs: "list_all no_utility xs" by simp_all
  from "5.IH"(1) [OF "5.prems"(1) nx]
  have np: "\<not> still_polling (run_call h c x w)" and eq: "world_of (run_call h c x w) = w"
    by simp_all
  show ?case
  proof (cases "run_call h c x w")
    case (Returned w1)
    with eq have w1: "w1 = w" by simp
    from "5.IH"(2) [OF Returned] w1 "5.prems"(1) nxs Returned show ?thesis by simp
  next
    case (Raised e w1)
    with eq show ?thesis by simp
  next
    case (Polling w1)
    with np show ?thesis by simp
  qed
qed

lemma world_flag_twice [simp]: "w\<lparr>isUtility := True\<rparr>\<lparr>isUtility := False\<rparr> = w\<lparr>isUtility := False\<rparr>"
  by (cases w) simp

text \<open>
  \<^verbatim>\<open>pg_hook_process_utility\<close> enters the utility command with \<^verbatim>\<open>isUtility\<close> set and
  clears the flag on every way out, on return and on error alike, and the error goes on
  unchanged. So whenever the hook is left the flag is false (and the nesting level is
  what it was). For a command that runs no utility command inside itself the flag is
  set for the whole duration: nothing started or run inside it is enforced, and the
  world after it is the world before it with the flag cleared. After a utility command
  has completed or failed at top level, the next query with a text and without the
  explain flags is enforced.
\<close>

lemma utility_flag_on_exit:
  "run_call h c (ProcessUtility body err) w =
     (case finish err (run_calls h c body (w\<lparr>isUtility := True\<rparr>)) of
        Returned w1 \<Rightarrow> Returned (w1\<lparr>isUtility := False\<rparr>)
      | Raised e w1 \<Rightarrow> Raised e (w1\<lparr>isUtility := False\<rparr>)
      | Polling w1 \<Rightarrow> Polling w1) \<and>
   (\<not> still_polling (run_call h c (ProcessUtility body err) w) \<longrightarrow>
      \<not> isUtility (world_of (run_call h c (ProcessUtility body err) w)) \<and>
      nesting_level (world_of (run_call h c (ProcessUtility body err) w)) = nesting_level w) \<and>
   (list_all no_utility body \<longrightarrow>
      \<not> still_polling (run_call h c (ProcessUtility body err) w) \<and>
      world_of (run_call h c (ProcessUtility body err) w) = w\<lparr>isUtility := False\<rparr>) \<and>
   (\<not> still_polling (run_call h c (ProcessUtility body err) w) \<and> nesting_level w = 0 \<and>
    \<not> IsParallelWorker h \<and> sourceText q \<noteq> '''' \<and>
    eflags AND (EXEC_FLAG_EXPLAIN_GENERIC OR EXEC_FLAG_EXPLAIN_ONLY) = 0 \<longrightarrow>
      \<not> skips_enforcement h q eflags (world_of (run_call h c (ProcessUtility body err) w)))"
proof -
  let ?r = "run_call h c (ProcessUtility body err) w"
  let ?b = "finish err (run_calls h c body (w\<lparr>isUtility := True\<rparr>))"
  have 1: "?r = (case ?b of
        Returned w1 \<Rightarrow> Returned (w1\<lparr>isUtility := False\<rparr>)
      | Raised e w1 \<Rightarrow> Raised e (w1\<lparr>isUtility := False\<rparr>)
      | Polling w1 \<Rightarrow> Polling w1)"
    by (simp add: pg_hook_process_utility_def)
  have 2: "\<not> still_polling ?r \<longrightarrow> \<not> isUtility (world_of ?r) \<and> nesting_level (world_of ?r) = nesting_level w"
  proof
    assume np: "\<not> still_polling ?r"
    from balanced(1) [OF np] have lv: "nesting_level (world_of ?r) = nesting_level w" by simp
    from np 1 have "\<not> isUtility (world_of ?r)" by (cases ?b) simp_all
    with lv show "\<not> isUtility (world_of ?r) \<and> nesting_level (world_of ?r) = nesting_level w" by simp
  qed
  have 3: "list_all no_utility body \<longrightarrow> \<not> still_polling ?r \<and> world_of ?r = w\<lparr>isUtility := False\<rparr>"
  proof
    assume nu: "list_all no_utility body"
    have "isUtility (w\<lparr>isUtility := True\<rparr>)" by simp
    from under_utility_untouched(2) [OF this nu, of h c]
    have "\<not> still_polling ?b" "world_of ?b = w\<lparr>isUtility := True\<rparr>" by simp_all
    with 1 show "\<not> still_polling ?r \<and> world_of ?r = w\<lparr>isUtility := False\<rparr>"
      by (cases ?b) simp_all
  qed
  have 4: "\<not> still_polling ?r \<and> nesting_level w = 0 \<and> \<not> IsParallelWorker h \<and> sourceText q \<noteq> '''' \<and>
    eflags AND (EXEC_FLAG_EXPLAIN_GENERIC OR EXEC_FLAG_EXPLAIN_ONLY) = 0 \<longrightarrow>
      \<not> skips_enforcement h q eflags (world_of ?r)"
    using 2 by (simp add: skips_enforcement_def enable_enforce_def)
  from 1 2 3 4 show ?thesis by blast
qed

text \<open>
  Claim C10 says that the flag is true for the duration of the utility command. The
  comment of lines 77-80 says the same of the flag (it tells whether the current query
  is a utility command), and the counter \<^verbatim>\<open>nesting_level\<close> beside it is put back on
  the way out (it goes up and down by one). The flag is not: line 815 assigns
  \<^verbatim>\<open>false\<close>, whatever the flag was at line 791. A utility command that is run inside
  another one (a sub-command, or a command run by a procedure or a \<^verbatim>\<open>DO\<close> block) is
  entered with the flag set and left with the flag cleared, while the outer command is
  still at work: from there on, at nesting level zero, the outer command runs with
  \<^verbatim>\<open>enable_enforce\<close> true.
\<close>

theorem C10_inner_utility_clears_flag:
  "run_calls h c [ProcessUtility [] None] (w\<lparr>isUtility := True\<rparr>) = Returned (w\<lparr>isUtility := False\<rparr>) \<and>
   run_calls h c [ProcessUtility [] (Some e)] (w\<lparr>isUtility := True\<rparr>) = Raised e (w\<lparr>isUtility := False\<rparr>) \<and>
   isUtility (ex_world\<lparr>isUtility := True\<rparr>) \<and>
   \<not> enable_enforce ex_host (ex_world\<lparr>isUtility := True\<rparr>) 0 \<and>
   \<not> isUtility
     (world_of (run_calls ex_host ex_sched [ProcessUtility [] None] (ex_world\<lparr>isUtility := True\<rparr>))) \<and>
   enable_enforce ex_host
     (world_of (run_calls ex_host ex_sched [ProcessUtility [] None] (ex_world\<lparr>isUtility := True\<rparr>))) 0"
  by (simp add: pg_hook_process_utility_def finish_def enable_enforce_def ex_host_def)

section \<open>The forced reschedule of the wait loop\<close>

lemma set_status_simps [simp]:
  "registered (set_status k st s) = registered s"
  "runningQuery (set_status k st s) = runningQuery s"
  "status (entries (set_status k st s) k') = (if k' = k then st else status (entries s k'))"
  "affected_tables (entries (set_status k st s) k') = affected_tables (entries s k')"
  by (simp_all add: set_status_def)

lemma admit_registered [simp]: "registered (admit cap ks s) = registered s"
  by (induction ks arbitrary: s) simp_all

lemma admit_keeps_available:
  "status (entries s k) = QUERY_AVAILABLE \<Longrightarrow> status (entries (admit cap ks s) k) = QUERY_AVAILABLE"
  by (induction ks arbitrary: s) simp_all

lemma admit_none_waiting:
  "\<forall>k\<in>set ks. status (entries s k) \<noteq> QUERY_WAITING \<Longrightarrow> admit cap ks s = s"
  by (induction ks arbitrary: s) simp_all

lemma admit_some_waiting:
  "runningQuery s < cap \<Longrightarrow> \<exists>k\<in>set ks. status (entries s k) = QUERY_WAITING \<Longrightarrow>
   \<exists>k\<in>set ks. status (entries (admit cap ks s) k) = QUERY_AVAILABLE"
proof (induction ks arbitrary: s)
  case Nil
  then show ?case by simp
next
  case (Cons k ks)
  show ?case
  proof (cases "status (entries s k) = QUERY_WAITING")
    case True
    let ?s' = "(set_status k QUERY_AVAILABLE s)\<lparr>runningQuery := runningQuery s + 1\<rparr>"
    have "status (entries ?s' k) = QUERY_AVAILABLE" by simp
    then have "status (entries (admit cap ks ?s') k) = QUERY_AVAILABLE"
      by (rule admit_keeps_available)
    with True Cons.prems(1) show ?thesis by simp
  next
    case False
    with Cons.prems have "\<exists>k\<in>set ks. status (entries s k) = QUERY_WAITING" by auto
    from Cons.IH [OF Cons.prems(1) this] False Cons.prems(1) show ?thesis by auto
  qed
qed

lemma clear_gave_up_simps [simp]:
  "registered (clear_gave_up ks s) = registered s"
  "runningQuery (clear_gave_up ks s) = runningQuery s"
  by (induction ks arbitrary: s) simp_all

lemma clear_gave_up_status:
  "status (entries (clear_gave_up ks s) k) =
     (if k \<in> set ks \<and> status (entries s k) = QUERY_GIVE_UP then QUERY_WAITING
      else status (entries s k))"
  by (induction ks arbitrary: s) auto

lemma spec_Reschedule_registered [simp]: "registered (spec_Reschedule sp s) = registered s"
  by (simp add: spec_Reschedule_def)

lemma spec_Reschedule_keeps_available:
  "status (entries s k) = QUERY_AVAILABLE \<Longrightarrow>
   status (entries (spec_Reschedule sp s) k) = QUERY_AVAILABLE"
  by (simp add: spec_Reschedule_def clear_gave_up_status admit_keeps_available)

lemma spec_Reschedule_admits:
  assumes "runningQuery s < MaxConcurrentQueries sp"
    and "\<exists>k\<in>set (registered s). status (entries s k) = QUERY_WAITING"
  shows "\<exists>k\<in>set (registered s). status (entries (spec_Reschedule sp s) k) = QUERY_AVAILABLE"
proof -
  from admit_some_waiting [OF assms] obtain k where
    "k \<in> set (registered s)"
    "status (entries (admit (MaxConcurrentQueries sp) (registered s) s) k) = QUERY_AVAILABLE"
    by blast
  then have "k \<in> set (registered s) \<and> status (entries (spec_Reschedule sp s) k) = QUERY_AVAILABLE"
    by (simp add: spec_Reschedule_def clear_gave_up_status)
  then show ?thesis by blast
qed

lemma spec_Reschedule_clears:
  assumes "\<forall>k\<in>set (registered s). status (entries s k) \<noteq> QUERY_WAITING"
    and "k \<in> set (registered s)" "status (entries s k) = QUERY_GIVE_UP"
  shows "status (entries (spec_Reschedule sp s) k) = QUERY_WAITING \<and>
         runningQuery (spec_Reschedule sp s) = runningQuery s"
  using assms by (simp add: spec_Reschedule_def admit_none_waiting clear_gave_up_status)

lemma poll_forced:
  "runningQuery (before_read r s) = 0 \<Longrightarrow> status (entries (before_read r s) k) \<noteq> QUERY_AVAILABLE \<Longrightarrow>
   poll c k r s =
     (status (entries (Reschedule c (before_heal r (before_read r s))) k),
      Reschedule c (before_heal r (before_read r s)))"
  by (simp add: poll_def Let_def)

lemma quiet_simps [simp]: "before_read quiet s = s" "before_heal quiet s = s"
  "before_give_up quiet s = s"
  by (simp_all add: quiet_def)

lemma spec_sched_simps [simp]: "Reschedule (spec_sched sp) = spec_Reschedule sp"
  by (simp add: spec_sched_def)

lemma poll_quiet_keeps:
  assumes "k' \<in> set (registered s)" "status (entries s k') = QUERY_AVAILABLE"
  shows "k' \<in> set (registered (snd (poll (spec_sched sp) k quiet s))) \<and>
         status (entries (snd (poll (spec_sched sp) k quiet s)) k') = QUERY_AVAILABLE"
  using assms by (simp add: poll_def Let_def spec_Reschedule_keeps_available)

lemma poll_quiet_registered [simp]:
  "registered (snd (poll (spec_sched sp) k quiet s)) = registered s"
  by (simp add: poll_def Let_def)

lemma two_polls_admit:
  assumes cap: "0 < MaxConcurrentQueries sp" and run: "runningQuery s = 0"
    and k: "k \<in> set (registered s)"
    and st: "status (entries s k) = QUERY_WAITING \<or> status (entries s k) = QUERY_GIVE_UP"
  shows "\<exists>k'\<in>set (registered s).
           status (entries (snd (poll (spec_sched sp) k quiet (snd (poll (spec_sched sp) k quiet s)))) k')
             = QUERY_AVAILABLE"
proof -
  let ?c = "spec_sched sp"
  let ?s1 = "snd (poll ?c k quiet s)"
  from st have na: "status (entries s k) \<noteq> QUERY_AVAILABLE" by auto
  with run have p1: "?s1 = spec_Reschedule sp s" by (simp add: poll_def Let_def)
  have keep: "\<And>k'. k' \<in> set (registered ?s1) \<Longrightarrow> status (entries ?s1 k') = QUERY_AVAILABLE \<Longrightarrow> ?thesis"
    using poll_quiet_keeps [of _ ?s1 sp k] by auto
  show ?thesis
  proof (cases "\<exists>k'\<in>set (registered s). status (entries s k') = QUERY_WAITING")
    case True
    from spec_Reschedule_admits [OF _ True, of sp] run cap p1
    obtain k' where "k' \<in> set (registered s)" "status (entries ?s1 k') = QUERY_AVAILABLE" by auto
    with keep show ?thesis by simp
  next
    case False
    with st k have g: "status (entries s k) = QUERY_GIVE_UP" by auto
    from False have nw: "\<forall>k\<in>set (registered s). status (entries s k) \<noteq> QUERY_WAITING" by simp
    from spec_Reschedule_clears [OF nw k g, of sp] p1 run
    have w1: "status (entries ?s1 k) = QUERY_WAITING" and r1: "runningQuery ?s1 = 0" by simp_all
    then have p2: "snd (poll ?c k quiet ?s1) = spec_Reschedule sp ?s1"
      by (simp add: poll_def Let_def)
    have "\<exists>k'\<in>set (registered ?s1). status (entries ?s1 k') = QUERY_WAITING"
      using w1 k by auto
    from spec_Reschedule_admits [OF _ this, of sp] r1 cap p2 show ?thesis by simp
  qed
qed

text \<open>
  Claim C4. In the poll loop, a query that reads \<^verbatim>\<open>runningQuery == 0\<close> while its own
  status is not \<^verbatim>\<open>QUERY_AVAILABLE\<close> applies \<^verbatim>\<open>Reschedule\<close> and reads its status again
  before anything else; only if the status is still not available does it sleep and
  poll again, on the rescheduled segment. With the admission algorithm of the
  specification and a cap of at least one: when nothing runs and the polling query is
  registered and waiting, or has given up, then after at most two iterations of its
  poll loop, with every other session asleep, some registered query is
  \<^verbatim>\<open>QUERY_AVAILABLE\<close>. So the sessions cannot all stay asleep with nothing running.
\<close>

theorem C4_forced_reschedule_heals:
  "(runningQuery (before_read r s) = 0 \<and> status (entries (before_read r s) k) \<noteq> QUERY_AVAILABLE \<longrightarrow>
      poll c k r s =
        (status (entries (Reschedule c (before_heal r (before_read r s))) k),
         Reschedule c (before_heal r (before_read r s)))) \<and>
   (fst (poll c k r (shm w)) \<noteq> QUERY_AVAILABLE \<longrightarrow>
      waiting h c k (r # rs) w = waiting h c k rs (w\<lparr>shm := snd (poll c k r (shm w))\<rparr>)) \<and>
   (0 < MaxConcurrentQueries sp \<and> runningQuery s = 0 \<and> k \<in> set (registered s) \<and>
    (status (entries s k) = QUERY_WAITING \<or> status (entries s k) = QUERY_GIVE_UP) \<longrightarrow>
      (\<exists>k'\<in>set (registered s).
         status (entries (snd (poll (spec_sched sp) k quiet (snd (poll (spec_sched sp) k quiet s)))) k')
           = QUERY_AVAILABLE))"
proof -
  have 2: "fst (poll c k r (shm w)) \<noteq> QUERY_AVAILABLE \<longrightarrow>
      waiting h c k (r # rs) w = waiting h c k rs (w\<lparr>shm := snd (poll c k r (shm w))\<rparr>)"
    by (cases "poll c k r (shm w)") simp
  from poll_forced [of r s k c] 2 two_polls_admit [of sp s k] show ?thesis by blast
qed

text \<open>
  In the small installation: after the only query has retreated, its next poll makes it
  available again; and a query that waits while the cap is filled polls on without a
  reschedule.
\<close>

theorem C4_forced_reschedule_heals_witness:
  "runningQuery ex_retreated = 0 \<and> status (entries ex_retreated 1) = QUERY_WAITING \<and>
   poll ex_sched 1 quiet ex_retreated = (QUERY_AVAILABLE, shm ex_admitted) \<and>
   status (entries (snd (poll ex_sched 1 quiet (snd (poll ex_sched 1 quiet ex_retreated)))) 1)
     = QUERY_AVAILABLE \<and>
   fst (poll ex_sched 1 quiet (shm ex_queued)) = QUERY_WAITING \<and>
   waiting ex_host ex_sched 1 [quiet] ex_queued = Polling ex_queued"
proof -
  note c4 = C4_forced_reschedule_heals [of quiet ex_retreated 1 ex_sched ex_queued ex_host "[]" ex_spec]
  have a: "runningQuery (before_read quiet ex_retreated) = 0"
    "status (entries (before_read quiet ex_retreated) 1) \<noteq> QUERY_AVAILABLE"
    "runningQuery ex_retreated = 0" "status (entries ex_retreated 1) = QUERY_WAITING"
    "0 < MaxConcurrentQueries ex_spec" "1 \<in> set (registered ex_retreated)"
    "set (registered ex_retreated) = {1}"
    by (simp_all add: ex_defs)
  have f: "fst (poll ex_sched 1 quiet (shm ex_queued)) = QUERY_WAITING"
    by (simp add: poll_def Let_def ex_defs)
  then have f': "fst (poll ex_sched 1 quiet (shm ex_queued)) \<noteq> QUERY_AVAILABLE" by simp
  have s: "snd (poll ex_sched 1 quiet (shm ex_queued)) = shm ex_queued"
    by (simp add: poll_def Let_def ex_defs)
  from c4 a(1,2) have 1: "poll ex_sched 1 quiet ex_retreated =
      (status (entries (Reschedule ex_sched (before_heal quiet (before_read quiet ex_retreated))) 1),
       Reschedule ex_sched (before_heal quiet (before_read quiet ex_retreated)))"
    by blast
  have r: "Reschedule ex_sched (before_heal quiet (before_read quiet ex_retreated)) = shm ex_admitted"
    by (simp add: ex_defs set_status_def)
  from 1 r have p1: "poll ex_sched 1 quiet ex_retreated = (QUERY_AVAILABLE, shm ex_admitted)"
    by (simp add: ex_defs)
  from c4 a(3-6) have "\<exists>k'\<in>set (registered ex_retreated).
         status (entries (snd (poll (spec_sched ex_spec) 1 quiet (snd (poll (spec_sched ex_spec) 1 quiet ex_retreated)))) k')
           = QUERY_AVAILABLE"
    by blast
  with a(7) have 3: "status (entries (snd (poll ex_sched 1 quiet (snd (poll ex_sched 1 quiet ex_retreated)))) 1)
     = QUERY_AVAILABLE"
    by (simp add: ex_sched_def)
  from c4 f' have "waiting ex_host ex_sched 1 [quiet] ex_queued =
      waiting ex_host ex_sched 1 [] (ex_queued\<lparr>shm := snd (poll ex_sched 1 quiet (shm ex_queued))\<rparr>)"
    by blast
  with s have 4: "waiting ex_host ex_sched 1 [quiet] ex_queued = Polling ex_queued"
    by (simp del: waiting.simps(2))
  from a(3,4) p1 3 f 4 show ?thesis by blast
qed

section \<open>Queries of different sessions\<close>
















section \<open>The running count after a failed registration\<close>

text \<open>
  Claim C2 says that \<^verbatim>\<open>runningQuery\<close> stays between zero and the cap, as the assertions
  of lines 624, 725 and 745 do. \<^verbatim>\<open>full_process\<close> is incremented (line 615) before
  \<^verbatim>\<open>LogQuery\<close> is called, and nothing takes the increment back when \<^verbatim>\<open>LogQuery\<close>
  raises. With the registry of the specification: the start of a query with too many
  affected tables fails with \<open>CapacityExceeded\<close> and leaves \<^verbatim>\<open>full_process\<close> at one;
  the next query is started once and its ExecutorRun is called twice; both calls clean
  up, and \<^verbatim>\<open>runningQuery\<close> ends at minus one. (After the failed start the transaction
  aborts; the abort callbacks of lines 129-142 call \<^verbatim>\<open>AtAbort_IVM\<close>, which is defined
  in another file and cannot reach the static \<^verbatim>\<open>full_process\<close>.)
\<close>

theorem C2_negative_count_after_failed_start:
  "run_calls ex_host ex_sched2 [ExecutorStart ex_big_query 0 None [quiet]] ex_world
     = Raised (ERROR ''CapacityExceeded'') (ex_world\<lparr>full_process := 1\<rparr>) \<and>
   (\<exists>w'. run_calls ex_host ex_sched2
            [ExecutorStart ex_query 0 None [quiet], ExecutorRun ex_query [] None,
             ExecutorRun ex_query [] None] (ex_world\<lparr>full_process := 1\<rparr>)
          = Returned w' \<and> registered (shm w') = [] \<and> runningQuery (shm w') = - 1)"
  by (simp add: run_defs ex_defs)

end
